theory Spec2Isabelle
  imports Main "HOL-Library.Sublist" "HOL-Library.Multiset"
    "HOL-Library.Char_ord" "HOL-Library.List_Lexorder"
begin

section \<open>Strings and paths\<close>

text \<open>
  A Python \<open>str\<close> is a \<open>string\<close>: the bytes of its UTF-8 encoding, where a byte that is
  not part of a well-formed UTF-8 sequence stands for the lone surrogate that Python puts
  in a file name for a byte it cannot decode. The order on strings is the lexicographic
  order on the character codes, which is how Python compares two \<open>str\<close> values.
\<close>

definition is_ascii :: "string \<Rightarrow> bool" where
  "is_ascii s = list_all (\<lambda>c. of_char c < (128::nat)) s"

text \<open>
  What the Python runtime does and the repository does not hold: the case mapping of
  \<open>str.lower\<close> outside ASCII, and which strings the encoding of the standard output can
  encode. Both are parameters of the model.
\<close>

record runtime =
  lower_unicode :: "string \<Rightarrow> string"
  stdout_encodes :: "string \<Rightarrow> bool"

definition lower_char :: "char \<Rightarrow> char" where
  "lower_char c =
     (if CHR ''A'' \<le> c \<and> c \<le> CHR ''Z'' then char_of (of_char c + (32::nat)) else c)"

text \<open>
  \<open>s.lower()\<close>: on an ASCII string the letters \<open>A\<close> to \<open>Z\<close> become \<open>a\<close> to \<open>z\<close>; on
  any other string the result is the runtime's.
\<close>

definition str_lower :: "runtime \<Rightarrow> string \<Rightarrow> string" where
  "str_lower rt s = (if is_ascii s then map lower_char s else lower_unicode rt s)"

text \<open>\<open>s.endswith(e)\<close> and \<open>s.startswith(e)\<close> for a single string \<open>e\<close>.\<close>

definition endswith :: "string \<Rightarrow> string \<Rightarrow> bool" where
  "endswith s e = suffix e s"

definition startswith :: "string \<Rightarrow> string \<Rightarrow> bool" where
  "startswith s e = prefix e s"

text \<open>
  \<open>s.endswith(t)\<close> for a tuple \<open>t\<close> of strings: true when \<open>s\<close> ends with one of the
  members, false for the empty tuple.
\<close>

definition endswith_tuple :: "string \<Rightarrow> string list \<Rightarrow> bool" where
  "endswith_tuple s exts = list_ex (endswith s) exts"

text \<open>
  \<open>os.path.join(a, b)\<close> of \<open>posixpath\<close>: an absolute \<open>b\<close> replaces \<open>a\<close>; otherwise
  \<open>b\<close> is appended, after a separator unless \<open>a\<close> is empty or already ends with one.
\<close>

definition os_path_join :: "string \<Rightarrow> string \<Rightarrow> string" where
  "os_path_join a b =
     (if startswith b ''/'' then b
      else if a = [] \<or> endswith a ''/'' then a @ b
      else a @ ''/'' @ b)"

section \<open>The directory tree\<close>

text \<open>
  What the traversal can observe of the file system. An entry is a regular file, some other
  entry that is not a directory (a FIFO, a socket, a device), or a directory. A directory
  carries the error that listing it raises, if any (no read permission, for example),
  whether it can be searched (the permission that \<open>stat\<close> and \<open>scandir\<close> need to reach
  what is inside it), and its entries in the order in which the operating system lists
  them. The entries of a directory that cannot be listed are still there, but no listing
  shows them. A listing tells which entries are directories without a \<open>stat\<close> call
  (\<open>d_type\<close>). Symbolic links are not modelled.
\<close>

datatype error = Error string

datatype node = Regular | Special | Dir "error option" bool "(string \<times> node) list"

fun is_dir :: "node \<Rightarrow> bool" where
  "is_dir (Dir l s es) = True"
| "is_dir _ = False"

text \<open>\<open>os.listdir\<close>: the names of the entries, or the error.\<close>

fun os_listdir :: "node \<Rightarrow> error + string list" where
  "os_listdir (Dir None s es) = Inr (map fst es)"
| "os_listdir (Dir (Some e) s es) = Inl e"
| "os_listdir _ = Inl (Error ''NotADirectoryError'')"

text \<open>
  \<open>os.path.isfile(os.path.join(folder, file))\<close> for the directory \<open>folder\<close>: \<open>stat\<close>
  succeeds when the directory can be searched and has an entry of that name, and the
  entry must be a regular file. A failing \<open>stat\<close> gives \<open>False\<close>; nothing is raised.
\<close>

fun os_path_isfile :: "node \<Rightarrow> string \<Rightarrow> bool" where
  "os_path_isfile (Dir l s es) file = (s \<and> map_of es file = Some Regular)"
| "os_path_isfile _ file = False"

text \<open>
  \<open>os.walk(top)\<close> with its default arguments (top-down, \<open>onerror=None\<close>): for a directory
  that can be listed it yields the triple of the directory's path, the names of its
  subdirectories and the names of its other entries, and then walks each subdirectory in
  turn. With \<open>onerror=None\<close> the error of a directory that cannot be listed is ignored and
  that directory yields nothing; this holds for \<open>top\<close> as well. Listing a subdirectory of a
  directory that cannot be searched fails in the same way, so nothing below such a directory
  is walked.
\<close>

fun walk :: "string \<Rightarrow> node \<Rightarrow> (string \<times> string list \<times> string list) list"
  and walk_dirs :: "string \<Rightarrow> (string \<times> node) list \<Rightarrow> (string \<times> string list \<times> string list) list"
where
  "walk top_dir (Dir None s es) =
     (top_dir, map fst (filter (\<lambda>(n, c). is_dir c) es), map fst (filter (\<lambda>(n, c). \<not> is_dir c) es))
       # (if s then walk_dirs top_dir es else [])"
| "walk top_dir (Dir (Some e) s es) = []"
| "walk top_dir Regular = []"
| "walk top_dir Special = []"
| "walk_dirs top_dir [] = []"
| "walk_dirs top_dir ((n, c) # es) =
     (if is_dir c then walk (os_path_join top_dir n) c else []) @ walk_dirs top_dir es"

section \<open>The collector\<close>

text \<open>
  \<open>collect_files(folder, extensions, recursive)\<close>. The node is the directory that
  \<open>folder\<close> names. \<open>extensions\<close> is a tuple of strings, as \<open>str.endswith\<close> requires.
  The two loops become list comprehensions; \<open>sorted\<close> is \<open>sort\<close>.
\<close>

definition found_recursive :: "runtime \<Rightarrow> node \<Rightarrow> string \<Rightarrow> string list \<Rightarrow> string list" where
  "found_recursive rt t folder extensions =
     concat (map (\<lambda>(root, dirs, files).
        map (os_path_join root) (filter (\<lambda>file. endswith_tuple (str_lower rt file) extensions) files))
       (walk folder t))"

definition found_listdir :: "runtime \<Rightarrow> node \<Rightarrow> string \<Rightarrow> string list \<Rightarrow> string list \<Rightarrow> string list" where
  "found_listdir rt t folder extensions names =
     map (os_path_join folder)
       (filter (\<lambda>file. os_path_isfile t file \<and> endswith_tuple (str_lower rt file) extensions) names)"

definition collect_files :: "runtime \<Rightarrow> node \<Rightarrow> string \<Rightarrow> string list \<Rightarrow> bool \<Rightarrow> error + string list" where
  "collect_files rt t folder extensions recursive =
     (if recursive then Inr (sort (found_recursive rt t folder extensions))
      else case os_listdir t of
             Inl e \<Rightarrow> Inl e
           | Inr names \<Rightarrow> Inr (sort (found_listdir rt t folder extensions names)))"

section \<open>Encoding\<close>

text \<open>
  The destination is opened with \<open>encoding="utf-8"\<close> and the default strict error
  handling, so \<open>out.write(s)\<close> raises \<open>UnicodeEncodeError\<close> when \<open>s\<close> holds a lone
  surrogate, that is, when the bytes of \<open>s\<close> are not well-formed UTF-8. Well-formedness is
  checked by the usual automaton over the bytes (no overlong forms, no encoded surrogates,
  nothing above U+10FFFF).
\<close>

datatype utf8_state = U0 | U1 | U2 | U3 | UE0 | UED | UF0 | UF4 | UBad

definition in_range :: "char \<Rightarrow> nat \<Rightarrow> nat \<Rightarrow> bool" where
  "in_range c lo hi = (lo \<le> of_char c \<and> of_char c \<le> hi)"

fun utf8_step :: "utf8_state \<Rightarrow> char \<Rightarrow> utf8_state" where
  "utf8_step U0 c =
     (if in_range c 0x00 0x7F then U0
      else if in_range c 0xC2 0xDF then U1
      else if in_range c 0xE0 0xE0 then UE0
      else if in_range c 0xE1 0xEC \<or> in_range c 0xEE 0xEF then U2
      else if in_range c 0xED 0xED then UED
      else if in_range c 0xF0 0xF0 then UF0
      else if in_range c 0xF1 0xF3 then U3
      else if in_range c 0xF4 0xF4 then UF4
      else UBad)"
| "utf8_step U1 c = (if in_range c 0x80 0xBF then U0 else UBad)"
| "utf8_step U2 c = (if in_range c 0x80 0xBF then U1 else UBad)"
| "utf8_step U3 c = (if in_range c 0x80 0xBF then U2 else UBad)"
| "utf8_step UE0 c = (if in_range c 0xA0 0xBF then U1 else UBad)"
| "utf8_step UED c = (if in_range c 0x80 0x9F then U1 else UBad)"
| "utf8_step UF0 c = (if in_range c 0x90 0xBF then U2 else UBad)"
| "utf8_step UF4 c = (if in_range c 0x80 0x8F then U2 else UBad)"
| "utf8_step UBad c = UBad"

definition utf8_valid :: "string \<Rightarrow> bool" where
  "utf8_valid s = (foldl utf8_step U0 s = U0)"

section \<open>The combiner and the entry point\<close>

text \<open>
  The program's effects are threaded through a record. \<open>listing\<close> is the directory tree
  below \<open>INPUT_FOLDER\<close>. \<open>rd p\<close> is the outcome of
  \<open>open(p, "r", encoding="utf-8", errors="ignore")\<close> followed by \<open>read()\<close>: the decoded
  text, or the exception that either call raises. \<open>open_w p\<close> is the exception that
  \<open>open(p, "w")\<close> raises, if any. \<open>written\<close> holds the text files on disk that the
  program writes, by path, and \<open>stdout\<close> the text printed so far.

  A step returns the exception it raises, if any, and the state it leaves; \<open>andthen\<close>
  runs the next step only when the previous one raised nothing. The exceptions of \<open>print\<close>
  and \<open>out.write\<close> that are modelled are the encoding errors. Other failures of writing
  (a full disk, a closed pipe) are not modelled, and the destination is taken not to be one
  of the files being read.
\<close>

definition nl :: string where
  "nl = [CHR 0x0A]"

fun error_str :: "error \<Rightarrow> string" where
  "error_str (Error m) = m"

text \<open>The decimal digits of \<open>len(files)\<close> in an f-string.\<close>

fun str_nat :: "nat \<Rightarrow> string" where
  "str_nat n =
     (if n < 10 then [char_of (48 + n)]
      else str_nat (n div 10) @ [char_of (48 + n mod 10)])"

declare str_nat.simps [simp del]

record world =
  listing :: node
  rd :: "string \<Rightarrow> error + string"
  open_w :: "string \<Rightarrow> error option"
  written :: "string \<Rightarrow> string option"
  stdout :: string

definition andthen :: "error option \<times> world \<Rightarrow> (world \<Rightarrow> error option \<times> world) \<Rightarrow> error option \<times> world" where
  "andthen r f = (case r of (None, w) \<Rightarrow> f w | (Some e, w) \<Rightarrow> (Some e, w))"

text \<open>
  \<open>print(s)\<close>: ASCII text is printed whatever the encoding of the standard output is;
  any other text is printed when the runtime says that the standard output encodes it and
  raises \<open>UnicodeEncodeError\<close> otherwise, before anything of it is printed.
\<close>

definition print :: "runtime \<Rightarrow> string \<Rightarrow> world \<Rightarrow> error option \<times> world" where
  "print rt s w =
     (if is_ascii s \<or> stdout_encodes rt s then (None, w\<lparr>stdout := stdout w @ s @ nl\<rparr>)
      else (Some (Error ''UnicodeEncodeError''), w))"

text \<open>
  \<open>open(path, "w")\<close> truncates the file or raises. \<open>out.write(s)\<close> appends \<open>s\<close> to the
  file, or raises when \<open>s\<close> cannot be encoded; what was written before stays in the file,
  which the \<open>with\<close> statement closes.
\<close>

definition open_write :: "string \<Rightarrow> world \<Rightarrow> error + world" where
  "open_write path w =
     (case open_w w path of
        Some e \<Rightarrow> Inl e
      | None \<Rightarrow> Inr (w\<lparr>written := (written w)(path \<mapsto> [])\<rparr>))"

definition out_write :: "string \<Rightarrow> string \<Rightarrow> world \<Rightarrow> error option \<times> world" where
  "out_write path s w =
     (if utf8_valid s
      then (None, w\<lparr>written := (written w)(path \<mapsto>
                      (case written w path of None \<Rightarrow> s | Some t \<Rightarrow> t @ s))\<rparr>)
      else (Some (Error ''UnicodeEncodeError''), w))"

text \<open>
  The body of the loop of \<open>combine_files\<close>. The progress line and the four writes of the
  header are outside the \<open>try\<close> statement: what they raise ends the loop. Inside it,
  \<open>f.read()\<close> is evaluated before the first write, and every exception, of the read or of
  a write, is caught and reported by the \<open>print\<close> of the handler, which is itself outside
  any \<open>try\<close>.
\<close>

definition combine_body :: "runtime \<Rightarrow> string \<Rightarrow> string \<Rightarrow> world \<Rightarrow> error option \<times> world" where
  "combine_body rt out file_path w =
     andthen (print rt (''Adding: '' @ file_path) w) (\<lambda>w.
     andthen (out_write out nl w) (\<lambda>w.
     andthen (out_write out (replicate 60 (CHR ''='') @ nl) w) (\<lambda>w.
     andthen (out_write out (''FILE: '' @ file_path @ nl) w) (\<lambda>w.
     andthen (out_write out (replicate 60 (CHR ''='') @ nl @ nl) w) (\<lambda>w.
       case rd w file_path of
         Inl e \<Rightarrow> print rt (''Failed to read '' @ file_path @ '': '' @ error_str e) w
       | Inr text \<Rightarrow>
           (case andthen (out_write out text w) (out_write out (nl @ nl)) of
              (None, w') \<Rightarrow> (None, w')
            | (Some e, w') \<Rightarrow>
                print rt (''Failed to read '' @ file_path @ '': '' @ error_str e) w'))))))"

fun combine_loop :: "runtime \<Rightarrow> string \<Rightarrow> string list \<Rightarrow> world \<Rightarrow> error option \<times> world" where
  "combine_loop rt out [] w = (None, w)"
| "combine_loop rt out (file_path # rest) w =
     andthen (combine_body rt out file_path w) (combine_loop rt out rest)"

definition combine_files :: "runtime \<Rightarrow> string list \<Rightarrow> string \<Rightarrow> world \<Rightarrow> error option \<times> world" where
  "combine_files rt file_list output_file w =
     (case open_write output_file w of
        Inl e \<Rightarrow> (Some e, w)
      | Inr w1 \<Rightarrow> combine_loop rt output_file file_list w1)"

definition INPUT_FOLDER :: string where
  "INPUT_FOLDER = ''./''"

definition OUTPUT_FILE :: string where
  "OUTPUT_FILE = ''combined_assets.txt''"

definition INCLUDE_SUBFOLDERS :: bool where
  "INCLUDE_SUBFOLDERS = True"

text \<open>The local \<open>extensions\<close> of \<open>main\<close>.\<close>

definition extensions :: "string list" where
  "extensions = [''.tsx'', ''.css'', ''.ts'']"

definition main :: "runtime \<Rightarrow> world \<Rightarrow> error option \<times> world" where
  "main rt w =
     andthen (print rt ''Scanning for JS and CSS files...'' w) (\<lambda>w1.
       case collect_files rt (listing w1) INPUT_FOLDER extensions INCLUDE_SUBFOLDERS of
         Inl e \<Rightarrow> (Some e, w1)
       | Inr files \<Rightarrow>
           andthen (print rt (''Found '' @ str_nat (length files) @ '' files'') w1) (\<lambda>w2.
             if files = [] then print rt ''No files found.'' w2
             else andthen (combine_files rt files OUTPUT_FILE w2) (\<lambda>w3.
                    print rt (nl @ ''Done. Combined file saved as: '' @ OUTPUT_FILE) w3)))"

section \<open>Notions used to state the properties\<close>

text \<open>
  A name is valid when it is not empty and holds no separator. A tree is well formed when
  every name is valid and no directory lists a name twice, as on a real file system.
\<close>

definition valid_name :: "string \<Rightarrow> bool" where
  "valid_name n = (n \<noteq> [] \<and> CHR ''/'' \<notin> set n)"

fun wf_node :: "node \<Rightarrow> bool" and wf_entries :: "(string \<times> node) list \<Rightarrow> bool" where
  "wf_node (Dir l s es) = (distinct (map fst es) \<and> wf_entries es)"
| "wf_node Regular = True"
| "wf_node Special = True"
| "wf_entries [] = True"
| "wf_entries ((n, c) # es) = (valid_name n \<and> wf_node c \<and> wf_entries es)"

text \<open>
  \<open>lookup t ns\<close> is the entry that the names \<open>ns\<close> lead to from \<open>t\<close>, whatever the
  permissions are. \<open>walked t ns\<close> says that the traversal gets to see that entry: every
  directory on the way from \<open>t\<close> to the entry can be listed, and every one of them but the
  last, which holds the entry, can be searched. \<open>path_of folder ns\<close> is the path string
  that joining the names onto \<open>folder\<close> gives.
\<close>

fun lookup :: "node \<Rightarrow> string list \<Rightarrow> node option" where
  "lookup t [] = Some t"
| "lookup (Dir l s es) (n # ns) = (case map_of es n of None \<Rightarrow> None | Some c \<Rightarrow> lookup c ns)"
| "lookup Regular (n # ns) = None"
| "lookup Special (n # ns) = None"

fun walked :: "node \<Rightarrow> string list \<Rightarrow> bool" where
  "walked (Dir None s es) [n] = True"
| "walked (Dir None s es) (n # m # ns) =
     (s \<and> (case map_of es n of None \<Rightarrow> False | Some c \<Rightarrow> walked c (m # ns)))"
| "walked t ns = False"

fun searchable :: "node \<Rightarrow> bool" where
  "searchable (Dir l s es) = s"
| "searchable t = False"

definition path_of :: "string \<Rightarrow> string list \<Rightarrow> string" where
  "path_of folder ns = foldl os_path_join folder ns"

text \<open>
  \<open>canon\<close> sorts every listing by name. Two trees with the same \<open>canon\<close> differ only in
  the order in which their directories list the entries.
\<close>

fun canon :: "node \<Rightarrow> node" and canon_entries :: "(string \<times> node) list \<Rightarrow> (string \<times> node) list" where
  "canon (Dir l s es) = Dir l s (canon_entries es)"
| "canon Regular = Regular"
| "canon Special = Special"
| "canon_entries [] = []"
| "canon_entries ((n, c) # es) = insort_key fst (n, canon c) (canon_entries es)"

text \<open>
  \<open>prune\<close> replaces by an empty directory every directory that the traversal cannot enter:
  one that cannot be listed, and every subdirectory of one that cannot be searched. In the
  result every directory is \<open>accessible\<close>: it can be listed and searched.
\<close>

fun prune :: "node \<Rightarrow> node" and prune_entries :: "bool \<Rightarrow> (string \<times> node) list \<Rightarrow> (string \<times> node) list" where
  "prune (Dir None s es) = Dir None True (prune_entries s es)"
| "prune (Dir (Some e) s es) = Dir None True []"
| "prune Regular = Regular"
| "prune Special = Special"
| "prune_entries s [] = []"
| "prune_entries s ((n, c) # es) =
     (n, if is_dir c \<and> \<not> s then Dir None True [] else prune c) # prune_entries s es"

fun accessible :: "node \<Rightarrow> bool" and accessible_entries :: "(string \<times> node) list \<Rightarrow> bool" where
  "accessible (Dir l s es) = (l = None \<and> s \<and> accessible_entries es)"
| "accessible Regular = True"
| "accessible Special = True"
| "accessible_entries [] = True"
| "accessible_entries ((n, c) # es) = (accessible c \<and> accessible_entries es)"

text \<open>
  The output document as the description of the format gives it: per file a blank line, a
  line of 60 \<open>=\<close>, the \<open>FILE:\<close> line, a second line of 60 \<open>=\<close>, a blank line, and then the
  text and two newlines when the file could be read. \<open>encodes rt p r\<close> says that no
  encoding error occurs for the path \<open>p\<close> when the read has the outcome \<open>r\<close>: the lines
  printed for it can be printed, and the path and the text read are well-formed UTF-8 (a
  text decoded with \<open>errors="ignore"\<close> always is).
\<close>

definition printable :: "runtime \<Rightarrow> string \<Rightarrow> bool" where
  "printable rt s = (is_ascii s \<or> stdout_encodes rt s)"

definition separator_line :: string where
  "separator_line = ''============================================================''"

definition header_block :: "string \<Rightarrow> string" where
  "header_block path = nl @ separator_line @ nl @ ''FILE: '' @ path @ nl @ separator_line @ nl @ nl"

definition file_block :: "string \<Rightarrow> string \<Rightarrow> string" where
  "file_block path text =
     nl @ ''============================================================'' @ nl @
     ''FILE: '' @ path @ nl @
     ''============================================================'' @ nl @
     nl @ text @ nl @ nl"

fun body_text :: "error + string \<Rightarrow> string" where
  "body_text (Inr text) = text @ nl @ nl"
| "body_text (Inl e) = []"

fun diagnostic :: "string \<Rightarrow> error + string \<Rightarrow> string" where
  "diagnostic path (Inr text) = []"
| "diagnostic path (Inl e) = ''Failed to read '' @ path @ '': '' @ error_str e @ nl"

definition document :: "(string \<Rightarrow> error + string) \<Rightarrow> string list \<Rightarrow> string" where
  "document r file_list = concat (map (\<lambda>p. header_block p @ body_text (r p)) file_list)"

definition progress :: "(string \<Rightarrow> error + string) \<Rightarrow> string list \<Rightarrow> string" where
  "progress r file_list = concat (map (\<lambda>p. ''Adding: '' @ p @ nl @ diagnostic p (r p)) file_list)"

fun encodes :: "runtime \<Rightarrow> string \<Rightarrow> error + string \<Rightarrow> bool" where
  "encodes rt p (Inr text) = (printable rt (''Adding: '' @ p) \<and> utf8_valid p \<and> utf8_valid text)"
| "encodes rt p (Inl e) =
     (printable rt (''Adding: '' @ p) \<and> utf8_valid p \<and>
      printable rt (''Failed to read '' @ p @ '': '' @ error_str e))"

text \<open>
  The listing after a run that created \<open>OUTPUT_FILE\<close> in the scanned folder: the entry is
  new at some position \<open>k\<close>, unless a file of that name was there before.
\<close>

fun with_output_entry :: "nat \<Rightarrow> node \<Rightarrow> node" where
  "with_output_entry k (Dir l s es) =
     (if OUTPUT_FILE \<in> fst ` set es then Dir l s es
      else Dir l s (take k es @ (OUTPUT_FILE, Regular) # drop k es))"
| "with_output_entry k Regular = Regular"
| "with_output_entry k Special = Special"

subsection \<open>Auxiliary functions for the proofs\<close>

definition found_of :: "runtime \<Rightarrow> string list \<Rightarrow> (string \<times> string list \<times> string list) list \<Rightarrow> string list" where
  "found_of rt exts ws = concat (map (\<lambda>(root, dirs, files).
        map (os_path_join root) (filter (\<lambda>file. endswith_tuple (str_lower rt file) exts) files)) ws)"

fun files_below :: "node \<Rightarrow> string list list"
  and files_below_dirs :: "(string \<times> node) list \<Rightarrow> string list list" where
  "files_below (Dir None s es) =
     map (\<lambda>n. [n]) (map fst (filter (\<lambda>(n, c). \<not> is_dir c) es)) @
       (if s then files_below_dirs es else [])"
| "files_below (Dir (Some e) s es) = []"
| "files_below Regular = []"
| "files_below Special = []"
| "files_below_dirs [] = []"
| "files_below_dirs ((n, c) # es) =
     (if is_dir c then map ((#) n) (files_below c) else []) @ files_below_dirs es"

definition last_matches :: "runtime \<Rightarrow> string list \<Rightarrow> string list \<Rightarrow> bool" where
  "last_matches rt x ns = endswith_tuple (str_lower rt (last ns)) x"

definition pre :: "string \<Rightarrow> string" where
  "pre a = (if a = [] \<or> last a = CHR ''/'' then a else a @ ''/'')"

fun tail_str :: "string list \<Rightarrow> string" where
  "tail_str [] = []"
| "tail_str (n # ns) = CHR ''/'' # n @ tail_str ns"

definition below_entry :: "string \<times> node \<Rightarrow> string list list" where
  "below_entry e = (if is_dir (snd e) then map ((#) (fst e)) (files_below (snd e)) else [])"

definition found_main :: "runtime \<Rightarrow> world \<Rightarrow> string list" where
  "found_main rt w = sort (found_recursive rt (listing w) INPUT_FOLDER extensions)"

definition handler_effect :: "runtime \<Rightarrow> string \<Rightarrow> error \<Rightarrow> error option \<times> string \<times> string" where
  "handler_effect rt p e =
     (if printable rt (''Failed to read '' @ p @ '': '' @ error_str e)
      then (None, header_block p,
            ''Adding: '' @ p @ nl @ ''Failed to read '' @ p @ '': '' @ error_str e @ nl)
      else (Some (Error ''UnicodeEncodeError''), header_block p, ''Adding: '' @ p @ nl))"

definition body_effect :: "runtime \<Rightarrow> string \<Rightarrow> error + string \<Rightarrow> error option \<times> string \<times> string" where
  "body_effect rt p r =
     (if \<not> printable rt (''Adding: '' @ p) then (Some (Error ''UnicodeEncodeError''), [], [])
      else if \<not> utf8_valid p
        then (Some (Error ''UnicodeEncodeError''), nl @ separator_line @ nl, ''Adding: '' @ p @ nl)
      else case r of
        Inl e \<Rightarrow> handler_effect rt p e
      | Inr text \<Rightarrow>
          if utf8_valid text then (None, header_block p @ text @ nl @ nl, ''Adding: '' @ p @ nl)
          else handler_effect rt p (Error ''UnicodeEncodeError''))"

fun loop_effect :: "runtime \<Rightarrow> (string \<Rightarrow> error + string) \<Rightarrow> string list \<Rightarrow> error option \<times> string \<times> string" where
  "loop_effect rt r [] = (None, [], [])"
| "loop_effect rt r (p # rest) =
     (case body_effect rt p (r p) of
        (Some e, X, Y) \<Rightarrow> (Some e, X, Y)
      | (None, X, Y) \<Rightarrow>
          (case loop_effect rt r rest of (e, X', Y') \<Rightarrow> (e, X @ X', Y @ Y')))"

subsection \<open>Example inputs\<close>

text \<open>
  The example runtime leaves non-ASCII strings unchanged in \<open>str.lower\<close> and has a standard
  output that encodes everything; every string it is used on in \<open>str.lower\<close> is ASCII. The
  two undecodable names hold the byte \<open>0xFF\<close>, which Python turns into a lone surrogate.
\<close>

definition example_runtime :: runtime where
  "example_runtime = \<lparr>lower_unicode = (\<lambda>s. s), stdout_encodes = (\<lambda>s. True)\<rparr>"

definition example_tree :: node where
  "example_tree =
     Dir None True [(''b.css'', Regular),
               (''a'', Dir None True [(''x.TS'', Regular), (''pipe.ts'', Special)]),
               (''skip.txt'', Regular)]"

definition example_tree_reordered :: node where
  "example_tree_reordered =
     Dir None True [(''skip.txt'', Regular),
               (''a'', Dir None True [(''pipe.ts'', Special), (''x.TS'', Regular)]),
               (''b.css'', Regular)]"

definition example_tree_locked :: node where
  "example_tree_locked =
     Dir None True [(''b.css'', Regular),
               (''sub'', Dir (Some (Error ''Permission denied'')) True [(''x.ts'', Regular)])]"

definition undecodable_name :: string where
  "undecodable_name = ''./'' @ [CHR 0xFF] @ ''.ts''"

definition undecodable_gone :: string where
  "undecodable_gone = ''./gone'' @ [CHR 0xFF] @ ''.ts''"

definition example_world :: world where
  "example_world =
     \<lparr>listing = example_tree,
      rd = (\<lambda>p. if p = ''./a/x.TS'' \<or> p = undecodable_gone
                then Inl (Error ''No such file or directory'') else Inr ''A''),
      open_w = (\<lambda>p. None),
      written = Map.empty,
      stdout = []\<rparr>"

definition example_world_empty :: world where
  "example_world_empty =
     \<lparr>listing = Dir None True [(''skip.txt'', Regular)],
      rd = (\<lambda>p. Inr ''A''),
      open_w = (\<lambda>p. Some (Error ''Permission denied'')),
      written = [OUTPUT_FILE \<mapsto> ''old''],
      stdout = []\<rparr>"

definition example_world_second :: world where
  "example_world_second =
     (snd (main example_runtime example_world))\<lparr>listing := with_output_entry 1 example_tree\<rparr>"

section \<open>The walk as a list of name sequences\<close>

lemma found_of_append: "found_of rt x (a @ b) = found_of rt x a @ found_of rt x b"
  by (simp add: found_of_def)

lemma found_of_Nil: "found_of rt x [] = []"
  by (simp add: found_of_def)

lemma found_of_Cons: "found_of rt x ((r, d, f) # ws) =
   map (os_path_join r) (filter (\<lambda>file. endswith_tuple (str_lower rt file) x) f) @ found_of rt x ws"
  by (simp add: found_of_def)

lemma found_recursive_found_of: "found_recursive rt t folder x = found_of rt x (walk folder t)"
  by (simp add: found_recursive_def found_of_def)

lemma files_below_nonempty:
  "[] \<notin> set (files_below t)" "[] \<notin> set (files_below_dirs es)"
  by (induction t and es rule: files_below_files_below_dirs.induct) auto

lemma path_of_Cons: "path_of a (n # ns) = path_of (os_path_join a n) ns"
  by (simp add: path_of_def)

lemma path_of_single: "path_of a [n] = os_path_join a n"
  by (simp add: path_of_def)

lemma filter_last_Cons:
  "[] \<notin> set xs \<Longrightarrow> filter (last_matches rt x) (map ((#) n) xs) = map ((#) n) (filter (last_matches rt x) xs)"
  by (induction xs) (auto simp: last_matches_def)

lemma found_of_walk:
  "found_of rt x (walk top_dir t) = map (path_of top_dir) (filter (last_matches rt x) (files_below t))"
  "found_of rt x (walk_dirs top_dir es) = map (path_of top_dir) (filter (last_matches rt x) (files_below_dirs es))"
proof (induction top_dir t and top_dir es rule: walk_walk_dirs.induct)
  case (1 top_dir s es)
  then show ?case
    by (simp add: found_of_Cons found_of_Nil filter_map comp_def path_of_single last_matches_def)
next
  case (6 top_dir n c es)
  then show ?case
    by (simp add: found_of_append found_of_Nil filter_last_Cons files_below_nonempty comp_def path_of_Cons)
qed (simp_all add: found_of_Nil)

lemma endswith_slash: "endswith a ''/'' \<longleftrightarrow> a \<noteq> [] \<and> last a = CHR ''/''"
  by (cases a rule: rev_cases) (auto simp: endswith_def)

lemma join_valid: "valid_name n \<Longrightarrow> os_path_join a n = pre a @ n"
  by (cases n) (auto simp: os_path_join_def pre_def valid_name_def startswith_def endswith_slash)

lemma pre_join_valid: "valid_name n \<Longrightarrow> pre (pre a @ n) = pre a @ n @ ''/''"
  by (auto simp: pre_def valid_name_def dest: last_in_set)

lemma path_of_valid:
  "valid_name n \<Longrightarrow> \<forall>m\<in>set ns. valid_name m \<Longrightarrow> path_of a (n # ns) = pre a @ n @ tail_str ns"
proof (induction ns arbitrary: a n)
  case Nil
  then show ?case by (simp add: path_of_def join_valid)
next
  case (Cons m ns)
  have "path_of a (n # m # ns) = path_of (os_path_join a n) (m # ns)"
    by (simp add: path_of_def)
  also have "\<dots> = pre (os_path_join a n) @ m @ tail_str ns"
    using Cons by simp
  also have "\<dots> = pre a @ n @ tail_str (m # ns)"
    using Cons.prems by (simp add: join_valid pre_join_valid)
  finally show ?case .
qed

lemma takeWhile_name:
  "CHR ''/'' \<notin> set n \<Longrightarrow> takeWhile (\<lambda>c. c \<noteq> CHR ''/'') (n @ tail_str ns) = n"
  by (cases ns) (auto simp: takeWhile_append)

lemma name_tail_inj:
  assumes "n @ tail_str ns = m @ tail_str ms" "CHR ''/'' \<notin> set n" "CHR ''/'' \<notin> set m"
  shows "n = m \<and> tail_str ns = tail_str ms"
proof -
  have "takeWhile (\<lambda>c. c \<noteq> CHR ''/'') (n @ tail_str ns) = takeWhile (\<lambda>c. c \<noteq> CHR ''/'') (m @ tail_str ms)"
    using assms(1) by simp
  then have "n = m" using assms(2,3) by (simp add: takeWhile_name)
  with assms(1) show ?thesis by simp
qed

lemma tail_str_inj:
  "tail_str ns = tail_str ms \<Longrightarrow> \<forall>n\<in>set ns. valid_name n \<Longrightarrow> \<forall>m\<in>set ms. valid_name m \<Longrightarrow> ns = ms"
proof (induction ns arbitrary: ms)
  case Nil
  then show ?case by (cases ms) auto
next
  case (Cons n ns)
  then obtain m ms' where ms: "ms = m # ms'" by (cases ms) auto
  with Cons.prems have "n @ tail_str ns = m @ tail_str ms'" by simp
  moreover have "CHR ''/'' \<notin> set n" "CHR ''/'' \<notin> set m"
    using Cons.prems ms by (auto simp: valid_name_def)
  ultimately have "n = m \<and> tail_str ns = tail_str ms'" by (rule name_tail_inj)
  with Cons ms show ?case by auto
qed

lemma path_of_inj:
  assumes "path_of a ns = path_of a ms" "ns \<noteq> []" "ms \<noteq> []"
    "\<forall>n\<in>set ns. valid_name n" "\<forall>m\<in>set ms. valid_name m"
  shows "ns = ms"
proof -
  obtain n ns' where ns: "ns = n # ns'" using assms(2) by (cases ns) auto
  obtain m ms' where ms: "ms = m # ms'" using assms(3) by (cases ms) auto
  have "pre a @ n @ tail_str ns' = pre a @ m @ tail_str ms'"
    using assms(1,4,5) ns ms by (simp add: path_of_valid)
  then have "n @ tail_str ns' = m @ tail_str ms'" by simp
  moreover have "CHR ''/'' \<notin> set n" "CHR ''/'' \<notin> set m"
    using assms(4,5) ns ms by (auto simp: valid_name_def)
  ultimately have "n = m \<and> tail_str ns' = tail_str ms'" by (rule name_tail_inj)
  then show ?thesis using tail_str_inj [of ns' ms'] assms(4,5) ns ms by auto
qed

section \<open>Well-formed trees\<close>

lemma wf_entries_iff:
  "wf_entries es \<longleftrightarrow> (\<forall>(n, c)\<in>set es. valid_name n \<and> wf_node c)"
  by (induction es) auto

lemma files_below_valid:
  "wf_node t \<Longrightarrow> ns \<in> set (files_below t) \<Longrightarrow> \<forall>n\<in>set ns. valid_name n"
  "wf_entries es \<Longrightarrow> ns \<in> set (files_below_dirs es) \<Longrightarrow> \<forall>n\<in>set ns. valid_name n"
proof (induction t and es arbitrary: ns and ns rule: files_below_files_below_dirs.induct)
  case (1 s es)
  then show ?case by (auto simp: wf_entries_iff split: if_splits)
next
  case (6 n c es)
  then show ?case by (auto split: if_splits)
qed simp_all

lemma lookup_valid:
  "wf_node t \<Longrightarrow> lookup t ns = Some f \<Longrightarrow> (\<forall>n\<in>set ns. valid_name n) \<and> wf_node f"
proof (induction t ns rule: lookup.induct)
  case (2 l s es n ns)
  then obtain c where c: "map_of es n = Some c" "lookup c ns = Some f"
    by (auto split: option.splits)
  then have "(n, c) \<in> set es" by (simp add: map_of_SomeD)
  with 2 c show ?case by (auto simp: wf_entries_iff)
qed simp_all

lemma files_below_dirs_mem:
  "(n, c) \<in> set es \<Longrightarrow> is_dir c \<Longrightarrow> ms \<in> set (files_below c) \<Longrightarrow> n # ms \<in> set (files_below_dirs es)"
  by (induction es) auto

lemma walked_is_dir: "walked c ns \<Longrightarrow> is_dir c"
  by (cases c) auto

lemma walked_files_below:
  "walked t ns \<Longrightarrow> lookup t ns = Some f \<Longrightarrow> \<not> is_dir f \<Longrightarrow> ns \<in> set (files_below t)"
proof (induction t ns rule: walked.induct)
  case (1 s es n)
  then have "map_of es n = Some f" by (auto split: option.splits)
  then have "(n, f) \<in> set es" by (simp add: map_of_SomeD)
  with 1 show ?case by (auto simp: image_iff intro!: bexI [of _ "(n, f)"])
next
  case (2 s es n m ns)
  then obtain c where c: "map_of es n = Some c" "walked c (m # ns)" "lookup c (m # ns) = Some f" and s: s
    by (auto split: option.splits)
  then have mem: "(n, c) \<in> set es" by (simp add: map_of_SomeD)
  have "m # ns \<in> set (files_below c)" using 2 c s by simp
  then have "n # m # ns \<in> set (files_below_dirs es)"
    using mem walked_is_dir [OF c(2)] by (intro files_below_dirs_mem)
  with s show ?case by simp
qed simp_all

lemma files_below_dirs_shape:
  "ns \<in> set (files_below_dirs es) \<Longrightarrow> \<exists>n c ms. ns = n # ms \<and> ms \<noteq> [] \<and> (n, c) \<in> set es \<and> is_dir c \<and> ms \<in> set (files_below c)"
proof (induction es)
  case Nil
  then show ?case by simp
next
  case (Cons e es)
  obtain n c where e: "e = (n, c)" by (cases e)
  show ?case
  proof (cases "ns \<in> set (files_below_dirs es)")
    case True
    with Cons.IH show ?thesis by fastforce
  next
    case False
    with Cons.prems e obtain ms where "is_dir c" "ns = n # ms" "ms \<in> set (files_below c)"
      by (auto split: if_splits)
    moreover from this have "ms \<noteq> []" using files_below_nonempty(1) [of c] by auto
    ultimately show ?thesis using e by auto
  qed
qed

lemma files_below_walked:
  "wf_node t \<Longrightarrow> ns \<in> set (files_below t) \<Longrightarrow> walked t ns"
proof (induction ns arbitrary: t)
  case Nil
  then show ?case using files_below_nonempty(1) [of t] by simp
next
  case (Cons n ms)
  from Cons.prems(2) obtain s es where t: "t = Dir None s es"
    by (cases t rule: files_below.cases) auto
  show ?case
  proof (cases ms)
    case Nil
    with t show ?thesis by simp
  next
    case (Cons m ms')
    have "n # ms \<notin> set (map (\<lambda>n. [n]) (map fst (filter (\<lambda>(n, c). \<not> is_dir c) es)))"
      using Cons by auto
    with Cons.prems(2) t have s: s and d: "n # ms \<in> set (files_below_dirs es)"
      by (auto split: if_splits)
    from files_below_dirs_shape [OF d] obtain c where
      c: "(n, c) \<in> set es" "ms \<in> set (files_below c)"
      by auto
    have "wf_node c" using Cons.prems(1) t c(1) by (auto simp: wf_entries_iff)
    then have "walked c ms" using c(2) by (rule Cons.IH)
    moreover have "map_of es n = Some c" using Cons.prems(1) t c(1) by simp
    ultimately show ?thesis using t s Cons by simp
  qed
qed

lemma files_below_distinct:
  "wf_node t \<Longrightarrow> distinct (files_below t)"
  "distinct (map fst es) \<Longrightarrow> wf_entries es \<Longrightarrow> distinct (files_below_dirs es)"
proof (induction t and es rule: files_below_files_below_dirs.induct)
  case (1 s es)
  have a: "distinct (map (\<lambda>n. [n]) (map fst (filter (\<lambda>(n, c). \<not> is_dir c) es)))"
    using 1(2) by (simp add: distinct_map_filter distinct_map inj_on_def)
  have b: "s \<Longrightarrow> distinct (files_below_dirs es)" using 1 by simp
  have c: "set (map (\<lambda>n. [n]) (map fst (filter (\<lambda>(n, c). \<not> is_dir c) es))) \<inter> set (files_below_dirs es) = {}"
    by (auto dest!: files_below_dirs_shape)
  show ?case using a b c by simp
next
  case (6 n c es)
  have "distinct (files_below_dirs es)" using 6 by simp
  moreover have "is_dir c \<Longrightarrow> distinct (map ((#) n) (files_below c))"
    using 6 by (simp add: distinct_map)
  moreover have "set (map ((#) n) (files_below c)) \<inter> set (files_below_dirs es) = {}"
  proof -
    have "n \<notin> fst ` set es" using 6(3) by simp
    then show ?thesis by (force dest!: files_below_dirs_shape)
  qed
  ultimately show ?case by auto
qed simp_all

lemma found_recursive_eq:
  "found_recursive rt t folder x = map (path_of folder) (filter (last_matches rt x) (files_below t))"
  by (simp add: found_recursive_found_of found_of_walk)

lemma found_recursive_iff:
  assumes "wf_node t" "lookup t ns = Some f" "ns \<noteq> []" "\<not> is_dir f"
  shows "path_of folder ns \<in> set (found_recursive rt t folder x) \<longleftrightarrow>
         endswith_tuple (str_lower rt (last ns)) x \<and> walked t ns"
proof
  assume "path_of folder ns \<in> set (found_recursive rt t folder x)"
  then obtain ms where ms: "ms \<in> set (files_below t)" "last_matches rt x ms" "path_of folder ns = path_of folder ms"
    by (auto simp: found_recursive_eq)
  have "ms \<noteq> []" using ms(1) files_below_nonempty(1) [of t] by auto
  moreover have "\<forall>m\<in>set ms. valid_name m" using assms(1) ms(1) by (rule files_below_valid)
  moreover have "\<forall>n\<in>set ns. valid_name n" using lookup_valid [OF assms(1,2)] by simp
  ultimately have "ns = ms" using ms(3) assms(3) by (intro path_of_inj [of folder])
  with ms(1,2) files_below_walked [OF assms(1)]
  show "endswith_tuple (str_lower rt (last ns)) x \<and> walked t ns" by (simp add: last_matches_def)
next
  assume a: "endswith_tuple (str_lower rt (last ns)) x \<and> walked t ns"
  then have "ns \<in> set (files_below t)" using assms by (intro walked_files_below) auto
  with a show "path_of folder ns \<in> set (found_recursive rt t folder x)"
    by (auto simp: found_recursive_eq last_matches_def)
qed

lemma found_listdir_iff:
  assumes "wf_node (Dir l s es)" "lookup (Dir l s es) ns = Some f" "ns \<noteq> []"
  shows "path_of folder ns \<in> set (found_listdir rt (Dir l s es) folder x (map fst es)) \<longleftrightarrow>
         endswith_tuple (str_lower rt (last ns)) x \<and> f = Regular \<and> length ns = 1 \<and> s"
proof
  assume "path_of folder ns \<in> set (found_listdir rt (Dir l s es) folder x (map fst es))"
  then obtain m c where m: "(m, c) \<in> set es" "map_of es m = Some Regular" s
    "endswith_tuple (str_lower rt m) x" "path_of folder ns = path_of folder [m]"
    by (auto simp: found_listdir_def path_of_single)
  have "valid_name m" using assms(1) m(1) by (auto simp: wf_entries_iff)
  moreover have "\<forall>n\<in>set ns. valid_name n" using lookup_valid [OF assms(1,2)] by simp
  ultimately have "ns = [m]" using m(5) assms(3) by (intro path_of_inj [of folder]) auto
  with m assms(2) show "endswith_tuple (str_lower rt (last ns)) x \<and> f = Regular \<and> length ns = 1 \<and> s"
    by simp
next
  assume a: "endswith_tuple (str_lower rt (last ns)) x \<and> f = Regular \<and> length ns = 1 \<and> s"
  then obtain n where n: "ns = [n]" by (cases ns) auto
  with assms(2) a have "map_of es n = Some Regular" by (auto split: option.splits)
  moreover from this have "n \<in> fst ` set es" by (metis map_of_eq_None_iff option.distinct(1))
  ultimately show "path_of folder ns \<in> set (found_listdir rt (Dir l s es) folder x (map fst es))"
    using a n by (auto simp: found_listdir_def path_of_single)
qed

lemma lookup_root_dir:
  "lookup t ns = Some f \<Longrightarrow> ns \<noteq> [] \<Longrightarrow> \<exists>l s es. t = Dir l s es"
  by (induction t ns rule: lookup.induct) auto

section \<open>Sortedness and independence of the listing order\<close>

lemma map_of_Some_nondir_filter:
  "map_of es n = Some c \<Longrightarrow> \<not> is_dir c \<Longrightarrow> n \<in> fst ` set (filter (\<lambda>(n, c). \<not> is_dir c) es)"
  by (force dest: map_of_SomeD)

lemma found_listdir_subset:
  "set (found_listdir rt (Dir None s es) folder x (map fst es)) \<subseteq> set (found_recursive rt (Dir None s es) folder x)"
proof
  fix p assume "p \<in> set (found_listdir rt (Dir None s es) folder x (map fst es))"
  then obtain n where n: "map_of es n = Some Regular" "endswith_tuple (str_lower rt n) x"
    "p = os_path_join folder n"
    by (auto simp: found_listdir_def)
  have "n \<in> fst ` set (filter (\<lambda>(n, c). \<not> is_dir c) es)"
    using n(1) by (rule map_of_Some_nondir_filter) simp
  with n(2,3) show "p \<in> set (found_recursive rt (Dir None s es) folder x)"
    by (simp add: found_recursive_found_of found_of_Cons)
qed

lemma concat_map_Nil: "concat (map (\<lambda>p. []) ws) = []"
  by (induction ws) auto

lemma collect_files_sorted:
  assumes "wf_node t" "collect_files rt t folder exts recursive = Inr xs"
  shows "sorted_wrt (<) xs"
proof -
  have d: "distinct (found_recursive rt t folder exts)"
    unfolding found_recursive_eq
  proof (rule distinct_map [THEN iffD2], intro conjI)
    show "distinct (filter (last_matches rt exts) (files_below t))"
      using assms(1) by (simp add: files_below_distinct)
    show "inj_on (path_of folder) (set (filter (last_matches rt exts) (files_below t)))"
    proof (rule inj_onI)
      fix ns ms
      assume a: "ns \<in> set (filter (last_matches rt exts) (files_below t))"
        "ms \<in> set (filter (last_matches rt exts) (files_below t))"
        "path_of folder ns = path_of folder ms"
      then have "ns \<noteq> []" "ms \<noteq> []" using files_below_nonempty(1) [of t] by auto
      moreover have "\<forall>n\<in>set ns. valid_name n" "\<forall>m\<in>set ms. valid_name m"
        using a assms(1) files_below_valid(1) by auto
      ultimately show "ns = ms" using a(3) by (intro path_of_inj [of folder])
    qed
  qed
  have d2: "distinct (found_listdir rt t folder exts (map fst es))" if "t = Dir None s es" for s es
  proof -
    have v: "\<forall>n\<in>set (map fst es). valid_name n" using assms(1) that by (auto simp: wf_entries_iff)
    have "inj_on (os_path_join folder) (set (map fst es))"
    proof (rule inj_onI)
      fix n m assume "n \<in> set (map fst es)" "m \<in> set (map fst es)" "os_path_join folder n = os_path_join folder m"
      moreover from this v have "valid_name n" "valid_name m" by blast+
      ultimately have "pre folder @ n = pre folder @ m" by (simp add: join_valid)
      then show "n = m" by simp
    qed
    then have "inj_on (os_path_join folder) (set (filter (\<lambda>file. os_path_isfile t file \<and> endswith_tuple (str_lower rt file) exts) (map fst es)))"
      by (rule inj_on_subset) auto
    moreover have "distinct (map fst es)" using assms(1) that by simp
    ultimately show ?thesis unfolding found_listdir_def by (simp add: distinct_map)
  qed
  show ?thesis
  proof (cases recursive)
    case True
    with assms(2) d show ?thesis by (auto simp: collect_files_def strict_sorted_iff)
  next
    case False
    with assms(2) obtain names where n: "os_listdir t = Inr names"
      by (auto simp: collect_files_def split: sum.splits)
    then obtain s es where t: "t = Dir None s es" "names = map fst es"
      by (cases t rule: os_listdir.cases) auto
    with assms(2) False n d2 [OF t(1)] show ?thesis
      by (auto simp: collect_files_def strict_sorted_iff)
  qed
qed

lemma sort_cong_mset: "mset xs = mset ys \<Longrightarrow> sort xs = sort ys"
  by (rule properties_for_sort) simp_all

lemma is_dir_canon: "is_dir (canon c) = is_dir c"
  by (cases c) auto

lemma canon_Regular: "canon c = Regular \<longleftrightarrow> c = Regular"
  by (cases c) auto

lemma files_below_dirs_concat: "files_below_dirs es = concat (map below_entry es)"
  by (induction es) (auto simp: below_entry_def)

lemma mset_files_below_dirs:
  "mset (files_below_dirs es) = sum_mset (image_mset (\<lambda>e. mset (below_entry e)) (mset es))"
  by (induction es) (auto simp: below_entry_def)

lemma mset_canon_entries:
  "mset (canon_entries es) = image_mset (\<lambda>e. (fst e, canon (snd e))) (mset es)"
  by (induction es) auto

lemma mset_files_below_canon:
  "mset (files_below (canon t)) = mset (files_below t)"
  "\<forall>e\<in>set es. mset (below_entry (fst e, canon (snd e))) = mset (below_entry e)"
proof (induction t and es rule: canon_canon_entries.induct)
  case (1 l s es)
  have "image_mset (\<lambda>e. mset (below_entry e)) (mset (canon_entries es)) =
        image_mset (\<lambda>e. mset (below_entry (fst e, canon (snd e)))) (mset es)"
    by (simp add: mset_canon_entries image_mset.compositionality comp_def)
  also have "\<dots> = image_mset (\<lambda>e. mset (below_entry e)) (mset es)"
    using 1 by (intro image_mset_cong) simp
  finally have a: "mset (files_below_dirs (canon_entries es)) = mset (files_below_dirs es)"
    by (simp only: mset_files_below_dirs)
  have "mset (filter (\<lambda>(n, c). \<not> is_dir c) (canon_entries es)) =
        image_mset (\<lambda>e. (fst e, canon (snd e))) (mset (filter (\<lambda>(n, c). \<not> is_dir c) es))"
    by (simp add: mset_canon_entries filter_mset_image_mset split_def is_dir_canon)
  then have "mset (map fst (filter (\<lambda>(n, c). \<not> is_dir c) (canon_entries es))) =
        mset (map fst (filter (\<lambda>(n, c). \<not> is_dir c) es))"
    by (simp add: image_mset.compositionality comp_def)
  then have b: "mset (map (\<lambda>n. [n]) (map fst (filter (\<lambda>(n, c). \<not> is_dir c) (canon_entries es)))) =
        mset (map (\<lambda>n. [n]) (map fst (filter (\<lambda>(n, c). \<not> is_dir c) es)))"
    by (metis mset_map)
  show ?case using a b by (cases l) simp_all
next
  case (5 n c es)
  then show ?case by (auto simp: below_entry_def is_dir_canon)
qed simp_all

lemma set_canon_entries: "set (canon_entries es) = (\<lambda>e. (fst e, canon (snd e))) ` set es"
  using arg_cong [OF mset_canon_entries, of set_mset es] by simp

lemma map_fst_canon_entries: "mset (map fst (canon_entries es)) = mset (map fst es)"
  by (simp add: mset_canon_entries image_mset.compositionality comp_def)

lemma distinct_canon_entries: "distinct (map fst es) \<Longrightarrow> distinct (map fst (canon_entries es))"
  using map_fst_canon_entries [of es] by (metis mset_eq_imp_distinct_iff)

lemma isfile_canon:
  assumes "distinct (map fst es)"
  shows "os_path_isfile (Dir l s (canon_entries es)) n = os_path_isfile (Dir l s es) n"
proof -
  have "(n, Regular) \<in> set (canon_entries es) \<longleftrightarrow> (n, Regular) \<in> set es"
  proof
    assume "(n, Regular) \<in> set (canon_entries es)"
    then obtain c where "(n, c) \<in> set es" "canon c = Regular"
      by (auto simp: set_canon_entries)
    then show "(n, Regular) \<in> set es" by (simp add: canon_Regular)
  next
    assume "(n, Regular) \<in> set es"
    then have "(fst (n, Regular), canon (snd (n, Regular))) \<in> set (canon_entries es)"
      unfolding set_canon_entries by (rule imageI)
    then show "(n, Regular) \<in> set (canon_entries es)" by simp
  qed
  then show ?thesis using assms distinct_canon_entries [OF assms] by simp
qed

lemma found_recursive_canon:
  "mset (found_recursive rt (canon t) folder x) = mset (found_recursive rt t folder x)"
  by (simp add: found_recursive_eq mset_files_below_canon(1))

lemma found_listdir_canon:
  assumes "distinct (map fst es)"
  shows "mset (found_listdir rt (Dir l s (canon_entries es)) folder x (map fst (canon_entries es))) =
         mset (found_listdir rt (Dir l s es) folder x (map fst es))"
proof -
  have "filter_mset (\<lambda>file. os_path_isfile (Dir l s (canon_entries es)) file \<and> endswith_tuple (str_lower rt file) x)
          (mset (map fst (canon_entries es))) =
        filter_mset (\<lambda>file. os_path_isfile (Dir l s es) file \<and> endswith_tuple (str_lower rt file) x)
          (mset (map fst es))"
    by (simp only: map_fst_canon_entries isfile_canon [OF assms])
  then show ?thesis unfolding found_listdir_def by (simp only: mset_map mset_filter)
qed

lemma collect_files_canon:
  assumes "wf_node t"
  shows "collect_files rt (canon t) folder x recursive = collect_files rt t folder x recursive"
proof (cases recursive)
  case True
  then show ?thesis
    by (simp add: collect_files_def sort_cong_mset [OF found_recursive_canon])
next
  case False
  show ?thesis
  proof (cases t)
    case (Dir l s es)
    with assms have "distinct (map fst es)" by simp
    then have "sort (found_listdir rt (Dir l s (canon_entries es)) folder x (map fst (canon_entries es))) =
               sort (found_listdir rt (Dir l s es) folder x (map fst es))"
      by (intro sort_cong_mset found_listdir_canon)
    with False Dir show ?thesis by (cases l) (simp_all add: collect_files_def)
  qed (simp_all add: collect_files_def)
qed

section \<open>Directories that cannot be entered\<close>

lemma is_dir_prune: "is_dir (prune c) = is_dir c"
  by (cases c rule: prune.cases) auto

lemma files_below_prune:
  "files_below (prune t) = files_below t"
  "files_below_dirs (prune_entries s es) = (if s then files_below_dirs es else []) \<and>
   map fst (filter (\<lambda>(n, c). \<not> is_dir c) (prune_entries s es)) =
   map fst (filter (\<lambda>(n, c). \<not> is_dir c) es)"
  by (induction t and s es rule: prune_prune_entries.induct) (auto simp: is_dir_prune)

lemma accessible_prune:
  "accessible (prune t)" "accessible_entries (prune_entries s es)"
  by (induction t and s es rule: prune_prune_entries.induct) auto

lemma prune_accessible:
  "accessible t \<Longrightarrow> prune t = t" "accessible_entries es \<Longrightarrow> prune_entries True es = es"
  by (induction t and es rule: accessible_accessible_entries.induct) auto

section \<open>Encoding and the body of the loop\<close>

lemma utf8_step_ascii: "of_char c < (128::nat) \<Longrightarrow> (utf8_step st c = U0) = (st = U0)"
  by (cases st) (auto simp: in_range_def)

lemma utf8_ascii_suffix: "is_ascii c \<Longrightarrow> (foldl utf8_step st c = U0) = (st = U0)"
  by (induction c arbitrary: st) (auto simp: is_ascii_def utf8_step_ascii)

lemma utf8_valid_ascii: "is_ascii s \<Longrightarrow> utf8_valid s"
  by (simp add: utf8_valid_def utf8_ascii_suffix)

lemma utf8_valid_append: "utf8_valid a \<Longrightarrow> utf8_valid (a @ b) = utf8_valid b"
  by (simp add: utf8_valid_def)

lemma utf8_valid_append_ascii: "is_ascii b \<Longrightarrow> utf8_valid (a @ b) = utf8_valid a"
  by (simp add: utf8_valid_def utf8_ascii_suffix)

lemma is_ascii_nl: "is_ascii nl"
  by code_simp

lemma separator_replicate: "replicate 60 (CHR ''='') = separator_line"
  unfolding separator_line_def by code_simp

lemma is_ascii_separator: "is_ascii separator_line"
  by code_simp

lemma is_ascii_append: "is_ascii (a @ b) = (is_ascii a \<and> is_ascii b)"
  by (simp add: is_ascii_def)

lemma utf8_valid_file_line: "utf8_valid (''FILE: '' @ p @ nl) = utf8_valid p"
proof -
  have "is_ascii ''FILE: ''" by code_simp
  then have "utf8_valid (''FILE: '' @ p @ nl) = utf8_valid (p @ nl)"
    by (intro utf8_valid_append utf8_valid_ascii)
  then show ?thesis by (simp add: utf8_valid_append_ascii is_ascii_nl)
qed

lemmas utf8_valid_file_line_cons = utf8_valid_file_line [simplified]

lemma utf8_valid_consts:
  "utf8_valid nl" "utf8_valid (separator_line @ nl)" "utf8_valid (separator_line @ nl @ nl)"
  "utf8_valid (nl @ nl)"
  by (simp_all add: utf8_valid_ascii is_ascii_append is_ascii_nl is_ascii_separator)

lemma print_eq:
  "print rt s w =
     (if printable rt s then (None, w\<lparr>stdout := stdout w @ s @ nl\<rparr>)
      else (Some (Error ''UnicodeEncodeError''), w))"
  by (simp add: print_def printable_def)

lemma out_write_eq:
  "written w out = Some t \<Longrightarrow> out_write out s w =
     (if utf8_valid s then (None, w\<lparr>written := (written w)(out \<mapsto> t @ s)\<rparr>)
      else (Some (Error ''UnicodeEncodeError''), w))"
  by (simp add: out_write_def)

lemma combine_body_eq:
  assumes "written w out = Some t"
  shows "combine_body rt out p w =
     (case body_effect rt p (rd w p) of
        (e, X, Y) \<Rightarrow> (e, w\<lparr>written := (written w)(out \<mapsto> t @ X), stdout := stdout w @ Y\<rparr>))"
proof -
  have triv: "(written w)(out \<mapsto> t) = written w" using assms by (simp add: map_upd_triv)
  show ?thesis
    unfolding combine_body_def separator_replicate
    using assms triv
    by (cases "rd w p")
       (simp_all add: andthen_def print_eq out_write_eq body_effect_def handler_effect_def
          utf8_valid_consts utf8_valid_file_line_cons header_block_def)
qed

section \<open>Closed forms of the combiner\<close>

lemma combine_loop_eq:
  assumes "written w out = Some t"
  shows "combine_loop rt out fl w =
     (case loop_effect rt (rd w) fl of
        (e, X, Y) \<Rightarrow> (e, w\<lparr>written := (written w)(out \<mapsto> t @ X), stdout := stdout w @ Y\<rparr>))"
  using assms
proof (induction fl arbitrary: w t)
  case Nil
  then show ?case by (cases w) (auto simp: fun_eq_iff)
next
  case (Cons p fl)
  obtain e X Y where b: "body_effect rt p (rd w p) = (e, X, Y)" by (cases "body_effect rt p (rd w p)")
  let ?w = "w\<lparr>written := (written w)(out \<mapsto> t @ X), stdout := stdout w @ Y\<rparr>"
  have body: "combine_body rt out p w = (e, ?w)"
    using combine_body_eq [OF Cons.prems, of rt p] b by simp
  show ?case
  proof (cases e)
    case (Some err)
    with body b show ?thesis by (simp add: andthen_def fun_upd_def)
  next
    case None
    have wr: "written ?w out = Some (t @ X)" by simp
    obtain e' X' Y' where l: "loop_effect rt (rd w) fl = (e', X', Y')"
      by (cases "loop_effect rt (rd w) fl")
    have "combine_loop rt out (p # fl) w = combine_loop rt out fl ?w"
      using body None by (simp add: andthen_def)
    also have "\<dots> = (case loop_effect rt (rd ?w) fl of
        (e, X', Y') \<Rightarrow> (e, ?w\<lparr>written := (written ?w)(out \<mapsto> (t @ X) @ X'), stdout := stdout ?w @ Y'\<rparr>))"
      by (rule Cons.IH [OF wr])
    finally show ?thesis using b None l by (simp add: fun_upd_def cong: if_cong)
  qed
qed

lemma combine_files_eq:
  assumes "open_w w out = None"
  shows "combine_files rt fl out w =
     (case loop_effect rt (rd w) fl of
        (e, X, Y) \<Rightarrow> (e, w\<lparr>written := (written w)(out \<mapsto> X), stdout := stdout w @ Y\<rparr>))"
  using combine_loop_eq [of "w\<lparr>written := (written w)(out \<mapsto> [])\<rparr>" out "[]" rt fl] assms
  by (simp add: combine_files_def open_write_def)

lemma body_effect_encodes:
  "encodes rt p r \<Longrightarrow>
   body_effect rt p r = (None, header_block p @ body_text r, ''Adding: '' @ p @ nl @ diagnostic p r)"
  by (cases r) (simp_all add: body_effect_def handler_effect_def)

lemma loop_effect_encodes:
  "\<forall>p\<in>set fl. encodes rt p (r p) \<Longrightarrow> loop_effect rt r fl = (None, document r fl, progress r fl)"
  by (induction fl) (simp_all add: body_effect_encodes document_def progress_def)

lemma loop_effect_cong:
  "(\<And>p. p \<in> set fl \<Longrightarrow> r p = r' p) \<Longrightarrow> loop_effect rt r fl = loop_effect rt r' fl"
proof (induction fl)
  case Nil
  then show ?case by simp
next
  case (Cons p fl)
  have "r p = r' p" using Cons.prems by simp
  moreover have "loop_effect rt r fl = loop_effect rt r' fl" using Cons by simp
  ultimately show ?case by (simp split: prod.splits option.splits)
qed

section \<open>The entry point and a second run\<close>

lemma join_suffix: "suffix b (os_path_join a b)"
  by (simp add: os_path_join_def suffix_def)

lemma is_ascii_suffix: "suffix a b \<Longrightarrow> is_ascii b \<Longrightarrow> is_ascii a"
  by (auto simp: suffix_def is_ascii_def)

lemma endswith_tuple_join_ascii:
  assumes "endswith_tuple (str_lower rt f) x" "is_ascii (os_path_join a f)"
  shows "endswith_tuple (map lower_char (os_path_join a f)) x"
proof -
  obtain z where z: "os_path_join a f = z @ f"
    using join_suffix [of f a] by (auto simp: suffix_def)
  have "is_ascii f" using join_suffix assms(2) by (rule is_ascii_suffix)
  with assms(1) obtain e where "e \<in> set x" "suffix e (map lower_char f)"
    by (auto simp: endswith_tuple_def endswith_def list_ex_iff str_lower_def)
  then have "e \<in> set x" "suffix e (map lower_char (z @ f))"
    by (simp_all add: suffix_appendI)
  then show ?thesis unfolding z by (auto simp: endswith_tuple_def endswith_def list_ex_iff)
qed

lemma found_of_ascii:
  "p \<in> set (found_of rt x ws) \<Longrightarrow> is_ascii p \<Longrightarrow> endswith_tuple (map lower_char p) x"
  by (induction ws) (auto simp: found_of_Nil found_of_Cons endswith_tuple_join_ascii)

lemma found_recursive_ascii:
  "p \<in> set (found_recursive rt t folder x) \<Longrightarrow> is_ascii p \<Longrightarrow> endswith_tuple (map lower_char p) x"
  unfolding found_recursive_found_of by (rule found_of_ascii)

lemma output_not_matching:
  "is_ascii (os_path_join INPUT_FOLDER OUTPUT_FILE)"
  "\<not> endswith_tuple (map lower_char (os_path_join INPUT_FOLDER OUTPUT_FILE)) extensions"
  "is_ascii OUTPUT_FILE"
  "\<not> endswith_tuple (map lower_char OUTPUT_FILE) extensions"
  by code_simp+

lemma output_not_found:
  "os_path_join INPUT_FOLDER OUTPUT_FILE \<notin> set (found_recursive rt t folder extensions)"
  using found_recursive_ascii [of "os_path_join INPUT_FOLDER OUTPUT_FILE" rt t folder extensions]
    output_not_matching(1,2) by blast

lemma output_entry_no_match: "\<not> last_matches rt extensions [OUTPUT_FILE]"
  using output_not_matching(3,4) by (simp add: last_matches_def str_lower_def)

lemma mset_files_below_Dir:
  "mset (files_below (Dir None s es)) =
     image_mset (\<lambda>e. [fst e]) (filter_mset (\<lambda>e. \<not> is_dir (snd e)) (mset es)) +
     (if s then sum_mset (image_mset (\<lambda>e. mset (below_entry e)) (mset es)) else {#})"
  by (simp add: mset_files_below_dirs split_def image_mset.compositionality comp_def)

lemma files_below_insert_entry:
  assumes "\<not> last_matches rt x [n]"
  shows "mset (filter (last_matches rt x) (files_below (Dir None s (take k es @ (n, Regular) # drop k es)))) =
         mset (filter (last_matches rt x) (files_below (Dir None s es)))"
proof -
  have "mset (xs @ e # ys) = add_mset e (mset (xs @ ys))" for e :: "string \<times> node" and xs ys
    by simp
  then have "mset (take k es @ (n, Regular) # drop k es) = add_mset (n, Regular) (mset (take k es @ drop k es))" .
  also have "take k es @ drop k es = es"
    by (rule append_take_drop_id)
  finally have m: "mset (take k es @ (n, Regular) # drop k es) = add_mset (n, Regular) (mset es)" .
  have "mset (files_below (Dir None s (take k es @ (n, Regular) # drop k es))) =
        add_mset [n] (mset (files_below (Dir None s es)))"
    unfolding mset_files_below_Dir m by (simp add: below_entry_def)
  then have "filter_mset (last_matches rt x) (mset (files_below (Dir None s (take k es @ (n, Regular) # drop k es)))) =
        filter_mset (last_matches rt x) (mset (files_below (Dir None s es)))"
    using assms by simp
  then show ?thesis by (simp only: mset_filter)
qed

lemma found_recursive_with_output:
  "sort (found_recursive rt (with_output_entry k t) folder extensions) =
   sort (found_recursive rt t folder extensions)"
proof (cases t)
  case (Dir l s es)
  show ?thesis
  proof (cases l)
    case None
    have "mset (found_recursive rt (with_output_entry k t) folder extensions) =
          mset (found_recursive rt t folder extensions)"
      using files_below_insert_entry [OF output_entry_no_match, of rt s k es] Dir None
      by (simp add: found_recursive_eq del: mset_filter files_below.simps)
    then show ?thesis by (rule sort_cong_mset)
  next
    case (Some e)
    with Dir show ?thesis by (simp add: found_recursive_eq)
  qed
qed simp_all

lemma is_ascii_str_nat: "is_ascii (str_nat n)"
proof (induction n rule: str_nat.induct)
  case (1 n)
  have d: "is_ascii [char_of (48 + k)]" if "k < 10" for k :: nat
    using that by (simp add: is_ascii_def)
  show ?case
  proof (cases "n < 10")
    case True
    then show ?thesis using d by (subst str_nat.simps) simp
  next
    case False
    moreover have "n mod 10 < 10" by simp
    ultimately show ?thesis using 1 d [of "n mod 10"]
      by (subst str_nat.simps) (simp add: is_ascii_append)
  qed
qed

lemma str_nat_0: "str_nat 0 = ''0''"
  by code_simp

lemma printable_ascii: "is_ascii s \<Longrightarrow> printable rt s"
  by (simp add: printable_def)

lemma main_prints:
  "printable rt ''Scanning for JS and CSS files...''"
  "printable rt (''Found '' @ str_nat n @ '' files'')"
  "printable rt ''No files found.''"
  "printable rt (nl @ ''Done. Combined file saved as: '' @ OUTPUT_FILE)"
proof -
  have a: "is_ascii ''Scanning for JS and CSS files...''" "is_ascii ''Found ''" "is_ascii '' files''"
    "is_ascii ''No files found.''" "is_ascii (nl @ ''Done. Combined file saved as: '' @ OUTPUT_FILE)"
    by code_simp+
  show "printable rt ''Scanning for JS and CSS files...''" "printable rt ''No files found.''"
    "printable rt (nl @ ''Done. Combined file saved as: '' @ OUTPUT_FILE)"
    using a by (simp_all only: printable_ascii)
  have "is_ascii (''Found '' @ str_nat n @ '' files'')"
    using a(2,3) is_ascii_str_nat [of n] by (simp only: is_ascii_append)
  then show "printable rt (''Found '' @ str_nat n @ '' files'')" by (rule printable_ascii)
qed

lemma main_eq:
  "main rt w =
    (let w1 = w\<lparr>stdout := stdout w @ ''Scanning for JS and CSS files...'' @ nl @
                  ''Found '' @ str_nat (length (found_main rt w)) @ '' files'' @ nl\<rparr> in
     if found_main rt w = [] then (None, w1\<lparr>stdout := stdout w1 @ ''No files found.'' @ nl\<rparr>)
     else case open_w w OUTPUT_FILE of
       Some e \<Rightarrow> (Some e, w1)
     | None \<Rightarrow>
        (case loop_effect rt (rd w) (found_main rt w) of
           (None, X, Y) \<Rightarrow>
             (None, w1\<lparr>written := (written w)(OUTPUT_FILE \<mapsto> X),
                   stdout := stdout w1 @ Y @ nl @ ''Done. Combined file saved as: '' @ OUTPUT_FILE @ nl\<rparr>)
         | (Some e, X, Y) \<Rightarrow>
             (Some e, w1\<lparr>written := (written w)(OUTPUT_FILE \<mapsto> X), stdout := stdout w1 @ Y\<rparr>)))"
proof -
  have pr: "print rt ''Scanning for JS and CSS files...'' v =
      (None, v\<lparr>stdout := stdout v @ ''Scanning for JS and CSS files...'' @ nl\<rparr>)"
    "print rt (''Found '' @ str_nat n @ '' files'') v =
      (None, v\<lparr>stdout := stdout v @ (''Found '' @ str_nat n @ '' files'') @ nl\<rparr>)"
    "print rt ''No files found.'' v = (None, v\<lparr>stdout := stdout v @ ''No files found.'' @ nl\<rparr>)"
    "print rt (nl @ ''Done. Combined file saved as: '' @ OUTPUT_FILE) v =
      (None, v\<lparr>stdout := stdout v @ (nl @ ''Done. Combined file saved as: '' @ OUTPUT_FILE) @ nl\<rparr>)"
    for v n
    by (simp_all only: print_eq main_prints if_True)
  show ?thesis
  proof (cases "open_w w OUTPUT_FILE")
    case None
    then show ?thesis
      unfolding main_def pr
      by (simp add: Let_def andthen_def collect_files_def INCLUDE_SUBFOLDERS_def found_main_def
          combine_files_eq split: prod.splits option.splits)
  next
    case (Some e)
    then show ?thesis
      unfolding main_def pr
      by (simp add: Let_def andthen_def collect_files_def INCLUDE_SUBFOLDERS_def found_main_def
          combine_files_def open_write_def)
  qed
qed

lemma main_written:
  assumes "main rt w = (None, w1)"
  shows "written w1 = (if found_main rt w = [] then written w
           else (written w)(OUTPUT_FILE \<mapsto> fst (snd (loop_effect rt (rd w) (found_main rt w)))))"
    and "found_main rt w \<noteq> [] \<Longrightarrow> open_w w OUTPUT_FILE = None"
    and "found_main rt w \<noteq> [] \<Longrightarrow> fst (loop_effect rt (rd w) (found_main rt w)) = None"
  using assms unfolding main_eq
  by (auto simp: Let_def split: option.splits if_splits prod.splits)

lemma main_rd: "rd (snd (main rt w)) = rd w" "open_w (snd (main rt w)) = open_w w"
  by (simp_all add: main_eq Let_def split: option.splits prod.splits)

lemma example_printable: "printable example_runtime s"
  by (simp add: printable_def example_runtime_def)

section \<open>The properties\<close>

text \<open>
  C1, as amended. For a well-formed tree, every extension tuple and every file under the
  root: with \<open>recursive=True\<close> the file's path is in the result of \<open>collect_files\<close> if
  and only if its name, lowercased, ends with one of the extensions taken as they are given
  (only the name is lowercased) and the traversal gets to see the file, that is, every
  directory on the way can be listed and every one but the last can be searched; with
  \<open>recursive=False\<close>, when a result is returned, if and only if its lowercased name ends
  with one of the extensions as given, it is a regular file and a direct child of the root,
  and the root can be searched.
\<close>

theorem collect_files_filter:
  assumes "wf_node t" "lookup t ns = Some f" "ns \<noteq> []" "\<not> is_dir f"
  shows "(\<exists>xs. collect_files rt t folder exts True = Inr xs \<and>
            (path_of folder ns \<in> set xs \<longleftrightarrow>
               endswith_tuple (str_lower rt (last ns)) exts \<and> walked t ns)) \<and>
         (\<forall>ys. collect_files rt t folder exts False = Inr ys \<longrightarrow>
            (path_of folder ns \<in> set ys \<longleftrightarrow>
               endswith_tuple (str_lower rt (last ns)) exts \<and> f = Regular \<and> length ns = 1 \<and>
               searchable t))"
proof -
  obtain l s es where t: "t = Dir l s es" using lookup_root_dir [OF assms(2,3)] by auto
  have "path_of folder ns \<in> set (sort (found_recursive rt t folder exts)) \<longleftrightarrow>
        endswith_tuple (str_lower rt (last ns)) exts \<and> walked t ns"
    using found_recursive_iff [OF assms] by simp
  moreover have "path_of folder ns \<in> set (sort (found_listdir rt t folder exts (map fst es))) \<longleftrightarrow>
        endswith_tuple (str_lower rt (last ns)) exts \<and> f = Regular \<and> length ns = 1 \<and> searchable t"
    using found_listdir_iff [of l s es ns f folder rt exts] assms t by simp
  ultimately show ?thesis by (cases l) (auto simp: collect_files_def t)
qed

theorem collect_files_filter_witness:
  "wf_node example_tree \<and> lookup example_tree [''a'', ''x.TS''] = Some Regular \<and>
   walked example_tree [''a'', ''x.TS''] \<and>
   collect_files example_runtime example_tree ''.'' [''.ts'', ''.css''] True =
     Inr [''./a/pipe.ts'', ''./a/x.TS'', ''./b.css''] \<and>
   collect_files example_runtime example_tree ''.'' [''.ts'', ''.css''] False = Inr [''./b.css''] \<and>
   (path_of ''.'' [''a'', ''x.TS''] \<in> set [''./a/pipe.ts'', ''./a/x.TS'', ''./b.css''] \<longleftrightarrow>
      endswith_tuple (str_lower example_runtime (last [''a'', ''x.TS''])) [''.ts'', ''.css''] \<and>
      walked example_tree [''a'', ''x.TS'']) \<and>
   (path_of ''.'' [''a'', ''x.TS''] \<in> set [''./b.css''] \<longleftrightarrow>
      endswith_tuple (str_lower example_runtime (last [''a'', ''x.TS''])) [''.ts'', ''.css''] \<and>
      Regular = Regular \<and> length [''a'', ''x.TS''] = 1 \<and> searchable example_tree)"
proof -
  have h1: "wf_node example_tree" by code_simp
  have h2: "lookup example_tree [''a'', ''x.TS''] = Some Regular" by code_simp
  have h3: "[''a'', ''x.TS''] \<noteq> []" by simp
  have h4: "\<not> is_dir Regular" by simp
  have h5: "walked example_tree [''a'', ''x.TS'']" by code_simp
  have r: "collect_files example_runtime example_tree ''.'' [''.ts'', ''.css''] True =
     Inr [''./a/pipe.ts'', ''./a/x.TS'', ''./b.css'']" by code_simp
  have n: "collect_files example_runtime example_tree ''.'' [''.ts'', ''.css''] False = Inr [''./b.css'']"
    by code_simp
  show ?thesis
    using collect_files_filter [OF h1 h2 h3 h4, of example_runtime "''.''" "[''.ts'', ''.css'']"]
      h1 h2 h5 r n by auto
qed

text \<open>
  C1 as stated fails in three ways. The file \<open>a.ts\<close> ends with the extension \<open>.TS\<close> when
  case is ignored, and neither mode returns it. The matching file \<open>sub/x.ts\<close> lies under
  the root in a directory that cannot be listed, and the recursive mode does not return it.
  The matching regular file \<open>a.ts\<close> is a direct child of a root that can be listed but not
  searched, and the non-recursive mode does not return it.
\<close>

theorem collect_files_filter_counterexample:
  "collect_files example_runtime (Dir None True [(''a.ts'', Regular)]) ''.'' [''.TS''] True = Inr [] \<and>
   collect_files example_runtime (Dir None True [(''a.ts'', Regular)]) ''.'' [''.TS''] False = Inr [] \<and>
   endswith_tuple (str_lower example_runtime ''a.ts'') (map (str_lower example_runtime) [''.TS'']) \<and>
   lookup example_tree_locked [''sub'', ''x.ts''] = Some Regular \<and>
   endswith_tuple (str_lower example_runtime ''x.ts'') [''.ts''] \<and>
   collect_files example_runtime example_tree_locked ''.'' [''.ts''] True = Inr [] \<and>
   endswith_tuple (str_lower example_runtime ''a.ts'') [''.ts''] \<and>
   collect_files example_runtime (Dir None False [(''a.ts'', Regular)]) ''.'' [''.ts''] False = Inr []"
  by code_simp

text \<open>
  C2. For a well-formed tree, the sequence that \<open>collect_files\<close> returns is strictly
  ascending in the lexicographic order of the path strings, and a tree that differs only in
  the order of its listings gives the same sequence.
\<close>

theorem collect_files_ordering:
  assumes "wf_node t" "wf_node t'" "canon t' = canon t"
    "collect_files rt t folder exts recursive = Inr xs"
  shows "sorted_wrt (<) xs \<and> collect_files rt t' folder exts recursive = Inr xs"
proof -
  have "collect_files rt t' folder exts recursive = collect_files rt t folder exts recursive"
    using collect_files_canon [OF assms(1), of rt folder exts recursive]
      collect_files_canon [OF assms(2), of rt folder exts recursive] assms(3) by simp
  then show ?thesis using collect_files_sorted [OF assms(1,4)] assms(4) by simp
qed

theorem collect_files_ordering_witness:
  "wf_node example_tree \<and> wf_node example_tree_reordered \<and>
   canon example_tree_reordered = canon example_tree \<and>
   collect_files example_runtime example_tree ''.'' [''.ts'', ''.css''] True =
     Inr [''./a/pipe.ts'', ''./a/x.TS'', ''./b.css''] \<and>
   sorted_wrt (<) [''./a/pipe.ts'', ''./a/x.TS'', ''./b.css''] \<and>
   collect_files example_runtime example_tree_reordered ''.'' [''.ts'', ''.css''] True =
     Inr [''./a/pipe.ts'', ''./a/x.TS'', ''./b.css'']"
proof -
  have h1: "wf_node example_tree" by code_simp
  have h2: "wf_node example_tree_reordered" by code_simp
  have h3: "canon example_tree_reordered = canon example_tree" by code_simp
  have h4: "collect_files example_runtime example_tree ''.'' [''.ts'', ''.css''] True =
      Inr [''./a/pipe.ts'', ''./a/x.TS'', ''./b.css'']"
    by code_simp
  show ?thesis using collect_files_ordering [OF h1 h2 h3 h4] h1 h2 h3 h4 by simp
qed

text \<open>
  C3, as amended. When the destination can be opened, every file of the list can be read,
  and every path of the list can be encoded (it is well-formed UTF-8 and its progress line
  can be printed), \<open>combine_files\<close> completes and the destination holds, for each path in
  list order, a blank line, a line of 60 \<open>=\<close>, the line \<open>FILE: <path>\<close>, another line of
  60 \<open>=\<close>, a blank line, the file's decoded content and two newlines.
\<close>

theorem combine_files_blocks:
  assumes "open_w w output_file = None"
    "\<forall>p\<in>set file_list. rd w p = Inr (content p) \<and> utf8_valid (content p) \<and> utf8_valid p \<and>
        printable rt (''Adding: '' @ p)"
  shows "fst (combine_files rt file_list output_file w) = None \<and>
         written (snd (combine_files rt file_list output_file w)) output_file =
           Some (concat (map (\<lambda>p. file_block p (content p)) file_list))"
proof -
  have e: "\<forall>p\<in>set file_list. encodes rt p (rd w p)" using assms(2) by simp
  have "document (rd w) file_list = concat (map (\<lambda>p. file_block p (content p)) file_list)"
    using assms(2)
    by (induction file_list) (simp_all add: document_def file_block_def header_block_def separator_line_def)
  then show ?thesis by (simp add: combine_files_eq [OF assms(1)] loop_effect_encodes [OF e])
qed

theorem combine_files_blocks_witness:
  "open_w example_world ''out.txt'' = None \<and>
   rd example_world ''./a/pipe.ts'' = Inr ''A'' \<and> rd example_world ''./b.css'' = Inr ''A'' \<and>
   fst (combine_files example_runtime [''./a/pipe.ts'', ''./b.css''] ''out.txt'' example_world) = None \<and>
   written (snd (combine_files example_runtime [''./a/pipe.ts'', ''./b.css''] ''out.txt'' example_world))
     ''out.txt'' =
     Some (file_block ''./a/pipe.ts'' ''A'' @ file_block ''./b.css'' ''A'')"
proof -
  have h1: "open_w example_world ''out.txt'' = None" by (simp add: example_world_def)
  have r: "rd example_world ''./a/pipe.ts'' = Inr ''A''" "rd example_world ''./b.css'' = Inr ''A''"
    by code_simp+
  have u: "utf8_valid ''A''" "utf8_valid ''./a/pipe.ts''" "utf8_valid ''./b.css''"
    by code_simp+
  have h2: "\<forall>p\<in>set [''./a/pipe.ts'', ''./b.css''].
      rd example_world p = Inr ((\<lambda>p. ''A'') p) \<and> utf8_valid ((\<lambda>p. ''A'') p) \<and> utf8_valid p \<and>
      printable example_runtime (''Adding: '' @ p)"
    using r u by (simp add: example_printable)
  show ?thesis using combine_files_blocks [OF h1 h2] h1 r by simp
qed

text \<open>
  C3 as stated holds for every list of readable files. For a readable file whose name holds
  an undecodable byte, the write of the \<open>FILE:\<close> line raises \<open>UnicodeEncodeError\<close>
  outside the \<open>try\<close> statement: \<open>combine_files\<close> raises, and the destination holds the
  beginning of the header only.
\<close>

theorem combine_files_blocks_counterexample:
  "open_w example_world ''out.txt'' = None \<and>
   rd example_world undecodable_name = Inr ''A'' \<and>
   fst (combine_files example_runtime [undecodable_name] ''out.txt'' example_world) =
     Some (Error ''UnicodeEncodeError'') \<and>
   written (snd (combine_files example_runtime [undecodable_name] ''out.txt'' example_world)) ''out.txt'' =
     Some (nl @ separator_line @ nl)"
  by code_simp




text \<open>
  C5. Let a run of \<open>main\<close> complete, and let a second run start from what the first one
  left: the listing is the same or has gained the entry of the output file, every file other
  than the output file reads as before, and the destination can be opened as before. Then
  the second run completes and the files on disk are as the first run left them. Likewise,
  when \<open>combine_files\<close> completes, calling it again with the same arguments on the state
  it left completes and leaves the same files on disk.
\<close>

theorem runs_deterministic:
  "(fst (main rt w) = None \<and>
    (listing w2 = listing w \<or> listing w2 = with_output_entry k (listing w)) \<and>
    (\<forall>p. p \<noteq> os_path_join INPUT_FOLDER OUTPUT_FILE \<longrightarrow> rd w2 p = rd w p) \<and>
    open_w w2 = open_w w \<and> written w2 = written (snd (main rt w))
    \<longrightarrow> fst (main rt w2) = None \<and> written (snd (main rt w2)) = written (snd (main rt w))) \<and>
   (fst (combine_files rt file_list output_file v) = None
    \<longrightarrow> fst (combine_files rt file_list output_file (snd (combine_files rt file_list output_file v))) = None \<and>
        written (snd (combine_files rt file_list output_file (snd (combine_files rt file_list output_file v)))) =
        written (snd (combine_files rt file_list output_file v)))"
proof (rule conjI; rule impI)
  assume a: "fst (main rt w) = None \<and>
    (listing w2 = listing w \<or> listing w2 = with_output_entry k (listing w)) \<and>
    (\<forall>p. p \<noteq> os_path_join INPUT_FOLDER OUTPUT_FILE \<longrightarrow> rd w2 p = rd w p) \<and>
    open_w w2 = open_w w \<and> written w2 = written (snd (main rt w))"
  have f: "found_main rt w2 = found_main rt w"
    using a by (auto simp: found_main_def found_recursive_with_output)
  have w1: "main rt w = (None, snd (main rt w))" using a by (metis prod.collapse)
  have d: "loop_effect rt (rd w2) (found_main rt w) = loop_effect rt (rd w) (found_main rt w)"
  proof (rule loop_effect_cong)
    fix p assume "p \<in> set (found_main rt w)"
    then have "p \<noteq> os_path_join INPUT_FOLDER OUTPUT_FILE"
      using output_not_found [of rt "listing w" INPUT_FOLDER] by (auto simp: found_main_def)
    with a show "rd w2 p = rd w p" by simp
  qed
  show "fst (main rt w2) = None \<and> written (snd (main rt w2)) = written (snd (main rt w))"
  proof (cases "found_main rt w = []")
    case True
    with a f show ?thesis by (simp add: main_eq [of rt w2] Let_def)
  next
    case False
    then have o: "open_w w2 OUTPUT_FILE = None" using a main_written(2) [OF w1] by simp
    obtain X Y where l: "loop_effect rt (rd w) (found_main rt w) = (None, X, Y)"
      using main_written(3) [OF w1 False] by (cases "loop_effect rt (rd w) (found_main rt w)") auto
    have "written (snd (main rt w)) = (written w)(OUTPUT_FILE \<mapsto> X)"
      using main_written(1) [OF w1] False l by simp
    then show ?thesis using a f d False o l
      by (simp add: main_eq [of rt w2] Let_def)
  qed
next
  assume b: "fst (combine_files rt file_list output_file v) = None"
  then have o: "open_w v output_file = None"
    by (cases "open_w v output_file") (simp_all add: combine_files_def open_write_def)
  let ?v1 = "snd (combine_files rt file_list output_file v)"
  obtain e X Y where l: "loop_effect rt (rd v) file_list = (e, X, Y)"
    by (cases "loop_effect rt (rd v) file_list")
  have e: "e = None" using b l by (simp add: combine_files_eq [OF o])
  have v1: "?v1 = v\<lparr>written := (written v)(output_file \<mapsto> X), stdout := stdout v @ Y\<rparr>"
    using l by (simp add: combine_files_eq [OF o])
  then have o1: "open_w ?v1 output_file = None" and r1: "rd ?v1 = rd v" using o by simp_all
  have "fst (combine_files rt file_list output_file ?v1) = None"
    using l e by (simp add: combine_files_eq [OF o1] r1)
  moreover have "written (snd (combine_files rt file_list output_file ?v1)) = written ?v1"
    unfolding combine_files_eq [OF o1] r1 l by (simp add: v1)
  ultimately show "fst (combine_files rt file_list output_file ?v1) = None \<and>
    written (snd (combine_files rt file_list output_file ?v1)) = written ?v1" by simp
qed

theorem runs_deterministic_witness:
  "fst (main example_runtime example_world) = None \<and>
   listing example_world_second = with_output_entry 1 (listing example_world) \<and>
   open_w example_world_second = open_w example_world \<and>
   written example_world_second = written (snd (main example_runtime example_world)) \<and>
   fst (main example_runtime example_world_second) = None \<and>
   written (snd (main example_runtime example_world_second)) =
     written (snd (main example_runtime example_world)) \<and>
   fst (combine_files example_runtime [''./b.css''] ''out.txt'' example_world) = None \<and>
   fst (combine_files example_runtime [''./b.css''] ''out.txt''
          (snd (combine_files example_runtime [''./b.css''] ''out.txt'' example_world))) = None \<and>
   written (snd (combine_files example_runtime [''./b.css''] ''out.txt''
          (snd (combine_files example_runtime [''./b.css''] ''out.txt'' example_world)))) =
   written (snd (combine_files example_runtime [''./b.css''] ''out.txt'' example_world))"
proof -
  note t = runs_deterministic [of example_runtime example_world example_world_second 1
      "[''./b.css'']" "''out.txt''" example_world]
  have fm: "found_main example_runtime example_world = [''./a/pipe.ts'', ''./a/x.TS'', ''./b.css'']"
    unfolding found_main_def by code_simp
  have o: "open_w example_world OUTPUT_FILE = None" "open_w example_world ''out.txt'' = None"
    by (simp_all add: example_world_def)
  have r: "rd example_world ''./a/pipe.ts'' = Inr ''A''" "rd example_world ''./b.css'' = Inr ''A''"
    "rd example_world ''./a/x.TS'' = Inl (Error ''No such file or directory'')"
    by code_simp+
  have u: "utf8_valid ''A''" "utf8_valid ''./a/pipe.ts''" "utf8_valid ''./b.css''"
    "utf8_valid ''./a/x.TS''"
    by code_simp+
  have e: "\<forall>p\<in>set [''./a/pipe.ts'', ''./a/x.TS'', ''./b.css''].
      encodes example_runtime p (rd example_world p)"
    using r u by (simp add: example_printable)
  have e': "\<forall>p\<in>set [''./b.css'']. encodes example_runtime p (rd example_world p)"
    using r u by (simp add: example_printable)
  have ne: "found_main example_runtime example_world \<noteq> []" by (simp add: fm)
  have le: "loop_effect example_runtime (rd example_world) (found_main example_runtime example_world) =
      (None, document (rd example_world) (found_main example_runtime example_world),
       progress (rd example_world) (found_main example_runtime example_world))"
    unfolding fm by (rule loop_effect_encodes [OF e])
  have h1: "fst (main example_runtime example_world) = None"
    by (simp add: main_eq Let_def ne o le)
  have h2: "listing example_world_second = with_output_entry 1 (listing example_world)"
    by (simp add: example_world_second_def example_world_def)
  have h3: "\<forall>p. p \<noteq> os_path_join INPUT_FOLDER OUTPUT_FILE \<longrightarrow>
              rd example_world_second p = rd example_world p"
    by (simp add: example_world_second_def main_rd)
  have h4: "open_w example_world_second = open_w example_world"
    by (simp add: example_world_second_def main_rd)
  have h5: "written example_world_second = written (snd (main example_runtime example_world))"
    by (simp add: example_world_second_def)
  have h6: "fst (combine_files example_runtime [''./b.css''] ''out.txt'' example_world) = None"
    by (simp only: combine_files_eq [OF o(2)] loop_effect_encodes [OF e'] prod.case fst_conv)
  from t h1 h2 h3 h4 h5 have a: "fst (main example_runtime example_world_second) = None \<and>
     written (snd (main example_runtime example_world_second)) =
     written (snd (main example_runtime example_world))"
    by blast
  from t h6 have b: "fst (combine_files example_runtime [''./b.css''] ''out.txt''
          (snd (combine_files example_runtime [''./b.css''] ''out.txt'' example_world))) = None \<and>
   written (snd (combine_files example_runtime [''./b.css''] ''out.txt''
          (snd (combine_files example_runtime [''./b.css''] ''out.txt'' example_world)))) =
   written (snd (combine_files example_runtime [''./b.css''] ''out.txt'' example_world))"
    by blast
  show ?thesis using a b h1 h2 h4 h5 h6 by blast
qed

text \<open>
  C6. When the collector finds no file, \<open>main\<close> prints the scan notice, \<open>Found 0 files\<close>
  and \<open>No files found.\<close>, raises nothing and changes nothing else: the destination is not
  opened, so the files on disk are as they were.
\<close>

theorem main_no_files:
  assumes "collect_files rt (listing w) INPUT_FOLDER extensions INCLUDE_SUBFOLDERS = Inr []"
  shows "main rt w =
     (None, w\<lparr>stdout := stdout w @ ''Scanning for JS and CSS files...'' @ nl @
                 ''Found 0 files'' @ nl @ ''No files found.'' @ nl\<rparr>)"
proof -
  have "found_main rt w = []"
    using assms by (simp add: collect_files_def INCLUDE_SUBFOLDERS_def found_main_def)
  then show ?thesis by (simp add: main_eq Let_def str_nat_0)
qed

theorem main_no_files_witness:
  "collect_files example_runtime (listing example_world_empty) INPUT_FOLDER extensions INCLUDE_SUBFOLDERS = Inr [] \<and>
   main example_runtime example_world_empty =
     (None, example_world_empty\<lparr>stdout := ''Scanning for JS and CSS files...'' @ nl @
                 ''Found 0 files'' @ nl @ ''No files found.'' @ nl\<rparr>) \<and>
   written (snd (main example_runtime example_world_empty)) OUTPUT_FILE = Some ''old'' \<and>
   open_w example_world_empty OUTPUT_FILE = Some (Error ''Permission denied'')"
proof -
  have h: "collect_files example_runtime (listing example_world_empty) INPUT_FOLDER extensions INCLUDE_SUBFOLDERS = Inr []"
    by code_simp
  show ?thesis using main_no_files [OF h] h by (simp add: example_world_empty_def)
qed

text \<open>
  C7, as amended. With \<open>recursive=True\<close>, \<open>collect_files\<close> raises nothing and skips what
  the traversal cannot enter: its result is the result for the pruned tree, in which every
  directory that cannot be listed, and every subdirectory of a directory that cannot be
  searched, is an empty directory, and which is the tree itself when every directory is
  accessible. With \<open>recursive=False\<close>, \<open>collect_files\<close> raises exactly when listing the
  root raises, and it raises that error.
\<close>

theorem collect_files_errors:
  "collect_files rt t folder exts True = collect_files rt (prune t) folder exts True \<and>
   accessible (prune t) \<and> (accessible t \<longrightarrow> prune t = t) \<and>
   (\<exists>xs. collect_files rt t folder exts True = Inr xs) \<and>
   (collect_files rt t folder exts False = Inl e \<longleftrightarrow> os_listdir t = Inl e)"
  by (auto simp: collect_files_def found_recursive_eq files_below_prune accessible_prune
      prune_accessible split: sum.splits)

theorem collect_files_errors_witness:
  "accessible example_tree \<and> prune example_tree = example_tree \<and>
   prune example_tree_locked = Dir None True [(''b.css'', Regular), (''sub'', Dir None True [])] \<and>
   collect_files example_runtime example_tree_locked ''.'' [''.ts'', ''.css''] True =
   collect_files example_runtime (Dir None True [(''b.css'', Regular), (''sub'', Dir None True [])])
     ''.'' [''.ts'', ''.css''] True"
proof -
  have h1: "accessible example_tree" by code_simp
  have h2: "prune example_tree_locked = Dir None True [(''b.css'', Regular), (''sub'', Dir None True [])]"
    by code_simp
  show ?thesis
    using collect_files_errors [of example_runtime example_tree "''.''" "[''.ts'', ''.css'']"]
      collect_files_errors [of example_runtime example_tree_locked "''.''" "[''.ts'', ''.css'']"]
      h1 h2 by simp
qed

text \<open>
  C7 as stated lets the error of a subdirectory that cannot be listed end the run in either
  mode. Both modes return normally on such a tree, and the recursive mode also returns
  normally when the root itself cannot be listed.
\<close>

theorem collect_files_errors_counterexample:
  "collect_files example_runtime example_tree_locked ''.'' [''.ts'', ''.css''] True = Inr [''./b.css''] \<and>
   collect_files example_runtime example_tree_locked ''.'' [''.ts'', ''.css''] False = Inr [''./b.css''] \<and>
   collect_files example_runtime (Dir (Some (Error ''Permission denied'')) True [(''x.ts'', Regular)])
     ''.'' [''.ts''] True = Inr []"
  by code_simp

text \<open>
  C8, as amended. For a well-formed tree and a matching file in a proper subdirectory of the
  root, \<open>collect_files\<close> with \<open>recursive=True\<close> returns the file's path if and only if
  the traversal gets to see the file (every directory on the way can be listed and every one
  but the last can be searched), and \<open>collect_files\<close> with \<open>recursive=False\<close> never
  returns it.
\<close>

theorem collect_files_subdirectory:
  assumes "wf_node t" "lookup t ns = Some f" "\<not> is_dir f" "2 \<le> length ns"
    "endswith_tuple (str_lower rt (last ns)) exts"
  shows "(\<exists>xs. collect_files rt t folder exts True = Inr xs \<and>
            (path_of folder ns \<in> set xs \<longleftrightarrow> walked t ns)) \<and>
         (\<forall>ys. collect_files rt t folder exts False = Inr ys \<longrightarrow> path_of folder ns \<notin> set ys)"
proof -
  have ne: "ns \<noteq> []" using assms(4) by auto
  obtain l s es where t: "t = Dir l s es" using lookup_root_dir [OF assms(2) ne] by auto
  have "path_of folder ns \<in> set (sort (found_recursive rt t folder exts)) \<longleftrightarrow> walked t ns"
    using found_recursive_iff [OF assms(1,2) ne assms(3)] assms(5) by simp
  moreover have "path_of folder ns \<notin> set (sort (found_listdir rt t folder exts (map fst es)))"
    using found_listdir_iff [of l s es ns f folder rt exts] assms ne t by simp
  ultimately show ?thesis by (cases l) (auto simp: collect_files_def t)
qed

theorem collect_files_subdirectory_witness:
  "wf_node example_tree \<and> lookup example_tree [''a'', ''x.TS''] = Some Regular \<and>
   endswith_tuple (str_lower example_runtime (last [''a'', ''x.TS''])) [''.ts'', ''.css''] \<and>
   walked example_tree [''a'', ''x.TS''] \<and>
   collect_files example_runtime example_tree ''.'' [''.ts'', ''.css''] True =
     Inr [''./a/pipe.ts'', ''./a/x.TS'', ''./b.css''] \<and>
   collect_files example_runtime example_tree ''.'' [''.ts'', ''.css''] False = Inr [''./b.css''] \<and>
   (path_of ''.'' [''a'', ''x.TS''] \<in> set [''./a/pipe.ts'', ''./a/x.TS'', ''./b.css''] \<longleftrightarrow>
      walked example_tree [''a'', ''x.TS'']) \<and>
   path_of ''.'' [''a'', ''x.TS''] \<notin> set [''./b.css'']"
proof -
  have h1: "wf_node example_tree" by code_simp
  have h2: "lookup example_tree [''a'', ''x.TS''] = Some Regular" by code_simp
  have h3: "\<not> is_dir Regular" by simp
  have h4: "2 \<le> length [''a'', ''x.TS'']" by simp
  have h5: "endswith_tuple (str_lower example_runtime (last [''a'', ''x.TS''])) [''.ts'', ''.css'']"
    by code_simp
  have h6: "walked example_tree [''a'', ''x.TS'']" by code_simp
  have r: "collect_files example_runtime example_tree ''.'' [''.ts'', ''.css''] True =
     Inr [''./a/pipe.ts'', ''./a/x.TS'', ''./b.css'']" by code_simp
  have n: "collect_files example_runtime example_tree ''.'' [''.ts'', ''.css''] False = Inr [''./b.css'']"
    by code_simp
  show ?thesis
    using collect_files_subdirectory [OF h1 h2 h3 h4 h5, of "''.''"] h1 h2 h5 h6 r n by auto
qed

text \<open>
  C8 as stated holds for every root. The matching file \<open>sub/x.ts\<close> lies in a subdirectory
  that cannot be listed, and the recursive result does not hold its path \<open>./sub/x.ts\<close>.
\<close>

theorem collect_files_subdirectory_counterexample:
  "lookup example_tree_locked [''sub'', ''x.ts''] = Some Regular \<and>
   endswith_tuple (str_lower example_runtime (last [''sub'', ''x.ts''])) [''.ts''] \<and>
   collect_files example_runtime example_tree_locked ''.'' [''.ts''] True = Inr [] \<and>
   path_of ''.'' [''sub'', ''x.ts''] = ''./sub/x.ts''"
  by code_simp

text \<open>
  C9. Every path that \<open>collect_files\<close> returns with \<open>recursive=False\<close> is returned with
  \<open>recursive=True\<close> for the same root and extensions.
\<close>

theorem collect_files_nonrecursive_subset:
  assumes "collect_files rt t folder exts False = Inr xs"
  shows "\<exists>ys. collect_files rt t folder exts True = Inr ys \<and> set xs \<subseteq> set ys"
proof -
  from assms obtain names where n: "os_listdir t = Inr names"
    by (auto simp: collect_files_def split: sum.splits)
  then obtain s es where t: "t = Dir None s es" "names = map fst es"
    by (cases t rule: os_listdir.cases) auto
  with assms n have "xs = sort (found_listdir rt (Dir None s es) folder exts (map fst es))"
    by (simp add: collect_files_def)
  then show ?thesis using found_listdir_subset [of rt s es folder exts] t
    by (simp add: collect_files_def)
qed

theorem collect_files_nonrecursive_subset_witness:
  "collect_files example_runtime example_tree ''.'' [''.ts'', ''.css''] False = Inr [''./b.css''] \<and>
   (\<exists>ys. collect_files example_runtime example_tree ''.'' [''.ts'', ''.css''] True = Inr ys \<and>
      set [''./b.css''] \<subseteq> set ys)"
proof -
  have h: "collect_files example_runtime example_tree ''.'' [''.ts'', ''.css''] False = Inr [''./b.css'']"
    by code_simp
  show ?thesis using collect_files_nonrecursive_subset [OF h] h by simp
qed

text \<open>
  C10, as amended. With the empty tuple of extensions, \<open>collect_files\<close> with
  \<open>recursive=True\<close> returns the empty sequence for every root; with \<open>recursive=False\<close> it
  returns the empty sequence when the root can be listed and raises the error of the
  listing otherwise.
\<close>

theorem collect_files_no_extensions:
  "collect_files rt t folder [] True = Inr [] \<and>
   collect_files rt t folder [] False =
     (case os_listdir t of Inl e \<Rightarrow> Inl e | Inr names \<Rightarrow> Inr [])"
  by (simp add: collect_files_def found_recursive_def found_listdir_def endswith_tuple_def
      split_def concat_map_Nil split: sum.splits)

text \<open>
  C10 as stated returns the empty sequence for every root in both modes. For a root that
  cannot be listed the non-recursive call raises.
\<close>

theorem collect_files_no_extensions_counterexample:
  "collect_files example_runtime (Dir (Some (Error ''Permission denied'')) True []) ''.'' [] False =
     Inl (Error ''Permission denied'')"
  by code_simp

end
